theory Spec2Isabelle
  imports Complex_Main "HOL-Library.Word"
begin

text \<open>
  A shallow embedding of the diagnostic core of the BMW control hub: the byte
  codec of the test page (\<open>can_utils.py\<close>, \<open>bmw.py\<close>), the two UDS
  read-data-by-identifier engines (\<open>trigger_finder.uds_read_by_id\<close> and
  \<open>UdsTablePage._uds_read_by_identifier\<close>), the LED decoder, and the
  detector and correlation step of the trigger finder.

  Python integers are \<open>int\<close>, byte sequences are \<open>int list\<close>, clock readings
  (seconds, Python floats) are rationals.
\<close>

unbundle bit_operations_syntax

section \<open>Signal decoders\<close>

text \<open>
  \<open>str\<close> on an integer prints its decimal digits, with a leading minus sign
  for a negative number.
\<close>

function str_nat :: "nat \<Rightarrow> string" where
  "str_nat n = (if n < 10 then [''0123456789'' ! n]
                else str_nat (n div 10) @ [''0123456789'' ! (n mod 10)])"
  by pat_completeness auto
termination
  by (relation "measure (\<lambda>n. n)") auto

declare str_nat.simps [simp del]

definition str_int :: "int \<Rightarrow> string" where
  "str_int i = (if i < 0 then CHR ''-'' # str_nat (nat (- i)) else str_nat (nat i))"

text \<open>
  \<open>UdsTablePage._decode_led\<close> (bmw.py): the payload is cut or zero-filled to 20
  entries; the first ten are duty-cycle percentages, the last ten are currents
  in steps of 10 mA. Both come back as decimal strings.
\<close>

definition decode_led :: "int list \<Rightarrow> string list \<times> string list" where
  "decode_led payload =
     (let padded = (if length payload < 20
                    then take 20 payload @ replicate (20 - length payload) 0
                    else take 20 payload);
          perc_raw = take 10 padded;
          curr_raw = take 10 (drop 10 padded);
          percent = map (\<lambda>val. str_int (max 0 (min 100 val))) perc_raw;
          current = map (\<lambda>val. str_int (max 0 val * 10)) curr_raw
      in (percent, current))"

lemma padded_eq:
  "(if length payload < 20 then take 20 payload @ replicate (20 - length payload) (0::int)
    else take 20 payload) = take 20 (payload @ replicate 20 0)"
  by (auto simp: min_def)

lemma str_int_small: "str_int 0 = ''0''" "str_int 50 = ''50''"
  by (simp_all add: str_int_def str_nat.simps)

lemma decode_led_padded:
  "decode_led payload =
     (map (\<lambda>v. str_int (max 0 (min 100 v))) (take 10 (take 20 (payload @ replicate 20 0))),
      map (\<lambda>v. str_int (max 0 v * 10)) (drop 10 (take 20 (payload @ replicate 20 0))))"
  unfolding decode_led_def Let_def padded_eq by simp

lemma pad_five:
  assumes "length payload = 5"
  shows "take 20 ((payload @ replicate 15 (0::int)) @ replicate 20 0)
         = take 20 (payload @ replicate 20 0)"
proof -
  have "replicate 20 (0::int) = replicate 15 0 @ replicate 5 0"
    by (simp add: replicate_add [symmetric])
  then have "take 20 (payload @ replicate 20 (0::int)) = payload @ replicate 15 0"
    using assms by simp
  moreover have "take 20 ((payload @ replicate 15 (0::int)) @ replicate 20 0)
                 = payload @ replicate 15 0"
    using assms by simp
  ultimately show ?thesis by simp
qed

text \<open>
  Claim C7. For every payload, the LED decoder works on the payload cut or
  zero-filled to exactly 20 bytes (it never raises): the first ten bytes are
  returned as percentages clamped to \<open>[0, 100]\<close>, the next ten as currents floored
  at 0 and multiplied by 10, ten values each. The payload
  \<open>[0]*10 + [5]*10\<close> decodes to percentages \<open>[0]*10\<close> and currents \<open>[50]*10\<close>, and
  a 5-byte payload decodes like the same payload followed by 15 zero bytes.
\<close>

theorem decode_led_spec:
  "decode_led payload =
     (map (\<lambda>v. str_int (max 0 (min 100 v))) (take 10 (take 20 (payload @ replicate 20 0))),
      map (\<lambda>v. str_int (max 0 v * 10)) (drop 10 (take 20 (payload @ replicate 20 0))))
   \<and> length (take 20 (payload @ replicate 20 0)) = 20
   \<and> length (fst (decode_led payload)) = 10 \<and> length (snd (decode_led payload)) = 10
   \<and> decode_led (replicate 10 0 @ replicate 10 5) = (replicate 10 ''0'', replicate 10 ''50'')
   \<and> (length payload = 5 \<longrightarrow> decode_led payload = decode_led (payload @ replicate 15 0))"
proof -
  have ex: "decode_led (replicate 10 0 @ replicate 10 5)
            = (replicate 10 ''0'', replicate 10 ''50'')"
    by (simp add: decode_led_def str_int_small)
  have five: "length payload = 5 \<longrightarrow> decode_led payload = decode_led (payload @ replicate 15 0)"
    by (simp only: decode_led_padded pad_five) simp
  have l1: "length (fst (decode_led payload)) = 10" by (simp add: decode_led_padded)
  have l2: "length (snd (decode_led payload)) = 10" by (simp add: decode_led_padded)
  have l0: "length (take 20 (payload @ replicate 20 (0::int))) = 20" by simp
  show ?thesis
    by (intro conjI) (rule decode_led_padded l0 l1 l2 ex five)+
qed

theorem decode_led_spec_witness:
  "length [1, 2, 3, 4, 200 :: int] = 5
   \<and> decode_led [1, 2, 3, 4, 200] = decode_led ([1, 2, 3, 4, 200] @ replicate 15 0)"
proof -
  have l: "length [1, 2, 3, 4, 200 :: int] = 5" by simp
  with decode_led_spec [of "[1, 2, 3, 4, 200]"] show ?thesis by blast
qed

lemma decode_led_example:
  "decode_led [1, 2, 3, 4, 200] =
     ([''1'', ''2'', ''3'', ''4'', ''100'', ''0'', ''0'', ''0'', ''0'', ''0''],
      [''0'', ''0'', ''0'', ''0'', ''0'', ''0'', ''0'', ''0'', ''0'', ''0''])"
  by code_simp

section \<open>Byte codec\<close>

text \<open>
  The exceptions the modelled code raises. \<open>ByteLengthError\<close> is the
  \<open>ValueError\<close> with the fixed text "Byte muss 1-2 Hex-Zeichen sein (z. B. A oder 0A).";
  \<open>InvalidLiteral s\<close> is the \<open>ValueError\<close> of \<open>int(s, 16)\<close>, whose text quotes \<open>s\<close>.
\<close>

datatype py_error =
    ByteLengthError
  | InvalidLiteral string
  | IndexError
  | TimeoutError
  | PcanWriteError
  | CanSendError
  | BytesRangeError
  | NoValidResponse
  | NegativeSF
  | NegativeFF
  | UnexpectedPCI

text \<open>
  Python's string methods on ASCII text. \<open>str.strip\<close> removes the characters
  for which \<open>str.isspace\<close> holds (codes 9-13 and 28-32); \<open>int\<close> skips only the
  characters of C's \<open>isspace\<close> (codes 9-13 and 32).
\<close>

definition isspace_str :: "char \<Rightarrow> bool" where
  "isspace_str c = (c \<in> set [CHR 0x09, CHR 0x0A, CHR 0x0B, CHR 0x0C, CHR 0x0D,
                               CHR 0x1C, CHR 0x1D, CHR 0x1E, CHR 0x1F, CHR 0x20])"

definition isspace_c :: "char \<Rightarrow> bool" where
  "isspace_c c = (c \<in> set [CHR 0x09, CHR 0x0A, CHR 0x0B, CHR 0x0C, CHR 0x0D, CHR 0x20])"

definition strip_by :: "(char \<Rightarrow> bool) \<Rightarrow> string \<Rightarrow> string" where
  "strip_by sp s = rev (dropWhile sp (rev (dropWhile sp s)))"

definition strip :: "string \<Rightarrow> string" where
  "strip s = strip_by isspace_str s"

definition upper_char :: "char \<Rightarrow> char" where
  "upper_char c =
     (case map_of (zip ''abcdefghijklmnopqrstuvwxyz'' ''ABCDEFGHIJKLMNOPQRSTUVWXYZ'') c of
        Some u \<Rightarrow> u
      | None \<Rightarrow> c)"

definition upper :: "string \<Rightarrow> string" where
  "upper s = map upper_char s"

text \<open>\<open>s.replace("0X", "")\<close>: every occurrence, scanning from the left.\<close>

fun replace_0X :: "string \<Rightarrow> string" where
  "replace_0X (a # b # s) =
     (if a = CHR ''0'' \<and> b = CHR ''X'' then replace_0X s else a # replace_0X (b # s))"
| "replace_0X s = s"

text \<open>
  \<open>int(s, 16)\<close> succeeds on: optional white space, an optional sign, an optional
  \<open>0x\<close> or \<open>0X\<close> (which may be followed by one underscore), then hexadecimal
  digits in groups separated by single underscores, then optional white space.
  Only whether it succeeds matters to the caller, which discards the number.
\<close>

definition is_hex_digit :: "char \<Rightarrow> bool" where
  "is_hex_digit c = (c \<in> set ''0123456789ABCDEFabcdef'')"

definition drop_sign :: "string \<Rightarrow> string" where
  "drop_sign s =
     (case s of [] \<Rightarrow> [] | c # r \<Rightarrow> if c = CHR ''+'' \<or> c = CHR ''-'' then r else s)"

definition drop_prefix16 :: "string \<Rightarrow> string" where
  "drop_prefix16 s =
     (case s of
        a # b # r \<Rightarrow>
          if a = CHR ''0'' \<and> (b = CHR ''x'' \<or> b = CHR ''X'')
          then (case r of c # r' \<Rightarrow> if c = CHR ''_'' then r' else r | [] \<Rightarrow> r)
          else s
      | _ \<Rightarrow> s)"

fun digits16 :: "bool \<Rightarrow> string \<Rightarrow> bool" where
  "digits16 prev [] = prev"
| "digits16 prev (c # r) =
     (if is_hex_digit c then digits16 True r
      else if c = CHR ''_'' \<and> prev then digits16 False r
      else False)"

definition int16_ok :: "string \<Rightarrow> bool" where
  "int16_ok s = digits16 False (drop_prefix16 (drop_sign (strip_by isspace_c s)))"

text \<open>
  \<open>normalize_hex_byte\<close> (can_utils.py and bmw.py, the same body): \<open>Inr None\<close>
  is the wildcard, \<open>Inr (Some s)\<close> the two-character token.
\<close>

definition normalize_hex_byte :: "string \<Rightarrow> py_error + string option" where
  "normalize_hex_byte val =
     (let s = replace_0X (upper (strip val)) in
      if s = [] \<or> s = ''?'' \<or> s = ''??'' then Inr None
      else
        let s = (if length s = 1 then CHR ''0'' # s else s) in
        if length s \<noteq> 2 then Inl ByteLengthError
        else if int16_ok s then Inr (Some s)
        else Inl (InvalidLiteral s))"

text \<open>
  \<open>tokens_from_boxes\<close>: the loop over the field texts; an exception of
  \<open>normalize_hex_byte\<close> leaves the loop and the function.
\<close>

fun tokens_loop :: "string list \<Rightarrow> string option list \<Rightarrow> int
                    \<Rightarrow> py_error + (string option list \<times> int)" where
  "tokens_loop [] tokens tot = Inr (tokens, tot)"
| "tokens_loop (v # vs) tokens tot =
     (case normalize_hex_byte v of
        Inl e \<Rightarrow> Inl e
      | Inr t \<Rightarrow> tokens_loop vs (tokens @ [t]) (if t = None then tot * 256 else tot))"

definition tokens_from_boxes :: "string list \<Rightarrow> py_error + (string option list \<times> int)" where
  "tokens_from_boxes byte_values = tokens_loop byte_values [] 1"

text \<open>
  The specification's \<open>normalize_byte\<close>, written from its words: trim and
  upper-case, strip an optional leading \<open>0X\<close>, map the empty text, \<open>?\<close> and \<open>??\<close>
  to the wildcard, zero-pad a single character, and fail with the original
  text unless two hexadecimal digits remain.
\<close>

datatype spec_error = InvalidByteToken string

definition is_hex_upper :: "char \<Rightarrow> bool" where
  "is_hex_upper c = (c \<in> set ''0123456789ABCDEF'')"

definition strip_prefix_0X :: "string \<Rightarrow> string" where
  "strip_prefix_0X t =
     (case t of a # b # r \<Rightarrow> if a = CHR ''0'' \<and> b = CHR ''X'' then r else t | _ \<Rightarrow> t)"

definition normalize_byte_spec :: "string \<Rightarrow> spec_error + string option" where
  "normalize_byte_spec token =
     (let s = strip_prefix_0X (upper (strip token)) in
      if s = [] \<or> s = ''?'' \<or> s = ''??'' then Inr None
      else
        let s = (if length s = 1 then CHR ''0'' # s else s) in
        if length s = 2 \<and> list_all is_hex_upper s then Inr (Some s)
        else Inl (InvalidByteToken token))"

subsection \<open>Properties of the byte codec\<close>

lemma replace_0X_noX: "CHR ''X'' \<notin> set s \<Longrightarrow> replace_0X s = s"
  by (induction s rule: replace_0X.induct) auto

lemma replace_0X_prefix:
  "CHR ''X'' \<notin> set (strip_prefix_0X t) \<Longrightarrow> replace_0X t = strip_prefix_0X t"
proof (cases t)
  case Nil
  then show ?thesis by (simp add: strip_prefix_0X_def)
next
  case (Cons a u)
  assume noX: "CHR ''X'' \<notin> set (strip_prefix_0X t)"
  show ?thesis
  proof (cases u)
    case Nil
    with Cons show ?thesis by (simp add: strip_prefix_0X_def)
  next
    case (Cons b r)
    show ?thesis
    proof (cases "a = CHR ''0'' \<and> b = CHR ''X''")
      case True
      with \<open>t = a # u\<close> Cons have "strip_prefix_0X t = r" by (simp add: strip_prefix_0X_def)
      with noX True \<open>t = a # u\<close> Cons show ?thesis by (simp add: replace_0X_noX)
    next
      case False
      with \<open>t = a # u\<close> Cons have "strip_prefix_0X t = t" by (auto simp: strip_prefix_0X_def)
      with noX show ?thesis by (simp add: replace_0X_noX)
    qed
  qed
qed

lemma hex_upper_facts:
  assumes "is_hex_upper c"
  shows "c \<noteq> CHR ''X''" "\<not> isspace_c c" "c \<noteq> CHR ''+''" "c \<noteq> CHR ''-''"
        "c \<noteq> CHR ''x''" "c \<noteq> CHR ''_''" "is_hex_digit c" "c \<noteq> CHR ''?''"
  using assms by (auto simp: is_hex_upper_def isspace_c_def is_hex_digit_def)

lemma int16_ok_hex2:
  assumes "is_hex_upper a" "is_hex_upper b"
  shows "int16_ok [a, b]"
  using hex_upper_facts [OF assms(1)] hex_upper_facts [OF assms(2)]
  by (simp add: int16_ok_def strip_by_def drop_sign_def drop_prefix16_def)

lemma spec_accepts_noX:
  assumes "normalize_byte_spec val = Inr r"
  shows "CHR ''X'' \<notin> set (strip_prefix_0X (upper (strip val)))"
proof -
  let ?s = "strip_prefix_0X (upper (strip val))"
  show ?thesis
  proof (cases "?s = [] \<or> ?s = ''?'' \<or> ?s = ''??''")
    case True
    then show ?thesis by auto
  next
    case False
    let ?p = "if length ?s = 1 then CHR ''0'' # ?s else ?s"
    from assms False have ok: "length ?p = 2 \<and> list_all is_hex_upper ?p"
      by (simp add: normalize_byte_spec_def Let_def split: if_splits)
    then have "list_all is_hex_upper ?s" by (simp split: if_splits)
    then show ?thesis using hex_upper_facts(1) by (auto simp: list_all_iff)
  qed
qed

lemma spec_refined:
  assumes "normalize_byte_spec val = Inr r"
  shows "normalize_hex_byte val = Inr r"
proof -
  let ?s = "strip_prefix_0X (upper (strip val))"
  have eq: "replace_0X (upper (strip val)) = ?s"
    using spec_accepts_noX [OF assms] by (rule replace_0X_prefix)
  show ?thesis
  proof (cases "?s = [] \<or> ?s = ''?'' \<or> ?s = ''??''")
    case True
    with assms eq show ?thesis
      by (auto simp: normalize_byte_spec_def normalize_hex_byte_def Let_def)
  next
    case False
    let ?p = "if length ?s = 1 then CHR ''0'' # ?s else ?s"
    from assms False have ok: "length ?p = 2" "list_all is_hex_upper ?p" and r: "r = Some ?p"
      by (auto simp: normalize_byte_spec_def Let_def split: if_splits)
    from ok obtain a b where ab: "?p = [a, b]" "is_hex_upper a" "is_hex_upper b"
      by (cases ?p; cases "tl ?p") (auto split: if_splits)
    then have "int16_ok ?p" by (simp add: int16_ok_hex2)
    with False eq ok r show ?thesis
      by (simp add: normalize_hex_byte_def Let_def)
  qed
qed

lemma code_error_shape:
  assumes "normalize_hex_byte val = Inl e"
  shows "e = ByteLengthError \<or>
         e = InvalidLiteral (let s = replace_0X (upper (strip val))
                             in if length s = 1 then CHR ''0'' # s else s)"
  using assms by (auto simp: normalize_hex_byte_def Let_def split: if_splits)

text \<open>
  Claim C8, as amended. \<open>normalize_hex_byte\<close> returns, for every input that the
  specification's \<open>normalize_byte\<close> accepts, the same result: the wildcard for
  the empty text, \<open>?\<close> and \<open>??\<close>, a single hexadecimal digit zero-padded, two
  hexadecimal digits as they are (after trimming, upper-casing and removing
  \<open>0X\<close>). Every input on which it fails is one the specification rejects, and
  the \<open>ValueError\<close> raised carries either a fixed text or the normalised
  text, not the original input.
\<close>

theorem normalize_hex_byte_amended:
  "(normalize_byte_spec val = Inr r \<longrightarrow> normalize_hex_byte val = Inr r)
   \<and> (replace_0X (upper (strip val)) \<in> {[], ''?'', ''??''} \<longrightarrow>
        normalize_hex_byte val = Inr None)
   \<and> (is_hex_upper c \<and> replace_0X (upper (strip val)) = [c] \<longrightarrow>
        normalize_hex_byte val = Inr (Some [CHR ''0'', c]))
   \<and> (normalize_hex_byte val = Inl e \<longrightarrow>
        normalize_byte_spec val = Inl (InvalidByteToken val)
        \<and> (e = ByteLengthError \<or>
           e = InvalidLiteral (let s = replace_0X (upper (strip val))
                               in if length s = 1 then CHR ''0'' # s else s)))"
proof (intro conjI impI)
  assume "normalize_byte_spec val = Inr r"
  then show "normalize_hex_byte val = Inr r" by (rule spec_refined)
next
  assume "replace_0X (upper (strip val)) \<in> {[], ''?'', ''??''}"
  then show "normalize_hex_byte val = Inr None"
    by (auto simp: normalize_hex_byte_def)
next
  assume c: "is_hex_upper c \<and> replace_0X (upper (strip val)) = [c]"
  have "is_hex_upper CHR ''0''" by (simp add: is_hex_upper_def)
  with c have "int16_ok [CHR ''0'', c]" by (simp add: int16_ok_hex2)
  with c hex_upper_facts(8) [of c] show "normalize_hex_byte val = Inr (Some [CHR ''0'', c])"
    by (simp add: normalize_hex_byte_def Let_def)
next
  assume f: "normalize_hex_byte val = Inl e"
  show "normalize_byte_spec val = Inl (InvalidByteToken val)"
  proof (cases "normalize_byte_spec val")
    case (Inl t)
    then show ?thesis by (auto simp: normalize_byte_spec_def Let_def split: if_splits)
  next
    case (Inr r')
    then have "normalize_hex_byte val = Inr r'" by (rule spec_refined)
    with f show ?thesis by simp
  qed
next
  assume "normalize_hex_byte val = Inl e"
  then show "e = ByteLengthError \<or>
         e = InvalidLiteral (let s = replace_0X (upper (strip val))
                             in if length s = 1 then CHR ''0'' # s else s)"
    by (rule code_error_shape)
qed

lemma normalize_examples:
  "normalize_byte_spec '' 0xfF '' = Inr (Some ''FF'')"
  "normalize_hex_byte '' g'' = Inl (InvalidLiteral ''0G'')"
  "replace_0X (upper (strip ''?'')) = ''?''"
  "is_hex_upper CHR ''A'' \<and> replace_0X (upper (strip ''a'')) = [CHR ''A'']"
  by code_simp+

theorem normalize_hex_byte_amended_witness:
  "normalize_byte_spec '' 0xfF '' = Inr (Some ''FF'')
   \<and> normalize_hex_byte '' 0xfF '' = Inr (Some ''FF'')
   \<and> normalize_hex_byte '' g'' = Inl (InvalidLiteral ''0G'')
   \<and> normalize_byte_spec '' g'' = Inl (InvalidByteToken '' g'')
   \<and> normalize_hex_byte ''?'' = Inr None
   \<and> normalize_hex_byte ''a'' = Inr (Some ''0A'')"
  using normalize_hex_byte_amended [of "'' 0xfF ''" "Some ''FF''" "CHR ''A''" ByteLengthError]
        normalize_hex_byte_amended [of "'' g''" None "CHR ''A''" "InvalidLiteral ''0G''"]
        normalize_hex_byte_amended [of "''?''" None "CHR ''A''" ByteLengthError]
        normalize_hex_byte_amended [of "''a''" None "CHR ''A''" ByteLengthError]
        normalize_examples
  by blast

text \<open>
  The claim as stated fails: \<open>10x\<close> has no leading \<open>0x\<close> and three characters,
  yet it is accepted as \<open>01\<close>; and the error for \<open>abc\<close> carries no input text.
\<close>

theorem normalize_hex_byte_counterexample:
  "normalize_hex_byte ''10x'' = Inr (Some ''01'')
   \<and> normalize_byte_spec ''10x'' = Inl (InvalidByteToken ''10x'')
   \<and> normalize_hex_byte ''abc'' = Inl ByteLengthError
   \<and> normalize_byte_spec ''abc'' = Inl (InvalidByteToken ''abc'')"
  by code_simp


lemma tokens_loop_ok:
  "list_all (\<lambda>v. \<not> isl (normalize_hex_byte v)) vs \<Longrightarrow>
   tokens_loop vs tokens tot =
     Inr (tokens @ map (\<lambda>v. projr (normalize_hex_byte v)) vs,
          tot * prod_list (map (\<lambda>t. if t = None then 256 else 1)
                             (map (\<lambda>v. projr (normalize_hex_byte v)) vs)))"
proof (induction vs arbitrary: tokens tot)
  case Nil
  then show ?case by simp
next
  case (Cons v vs)
  then obtain t where t: "normalize_hex_byte v = Inr t"
    by (cases "normalize_hex_byte v") auto
  from Cons.prems have rest: "list_all (\<lambda>v. \<not> isl (normalize_hex_byte v)) vs" by simp
  show ?case using t Cons.IH [OF rest] by simp
qed

lemma tokens_loop_fail:
  "list_all (\<lambda>v. \<not> isl (normalize_hex_byte v)) pre \<Longrightarrow> normalize_hex_byte v = Inl e \<Longrightarrow>
   tokens_loop (pre @ v # post) tokens tot = Inl e"
proof (induction pre arbitrary: tokens tot)
  case Nil
  then show ?case by simp
next
  case (Cons u pre)
  then obtain t where t: "normalize_hex_byte u = Inr t"
    by (cases "normalize_hex_byte u") auto
  with Cons show ?case by simp
qed

lemma prod_wildcards:
  "prod_list (map (\<lambda>t. if t = None then 256 else (1::int)) ts) = 256 ^ count_list ts None"
  by (induction ts) auto

lemma count_list_replicate: "count_list (replicate n x) x = n"
  by (induction n) auto

text \<open>
  Claim C9. \<open>tokens_from_boxes\<close> returns one token per field text and, as
  \<open>total_variants\<close>, the product of 256 for every wildcard position and 1 for
  every fixed one, that is \<open>256 ^ k\<close> for \<open>k\<close> wildcards (1 when every field is
  fixed, \<open>256 ^ 8\<close> for eight empty fields); when a field is invalid it fails
  with the error of the first invalid field and returns nothing else.
\<close>

theorem tokens_from_boxes_spec:
  "(list_all (\<lambda>v. \<not> isl (normalize_hex_byte v)) vs \<longrightarrow>
      (let tokens = map (\<lambda>v. projr (normalize_hex_byte v)) vs in
         tokens_from_boxes vs
           = Inr (tokens, prod_list (map (\<lambda>t. if t = None then 256 else 1) tokens))
         \<and> tokens_from_boxes vs = Inr (tokens, 256 ^ count_list tokens None)
         \<and> length tokens = length vs))
   \<and> (list_all (\<lambda>v. \<not> isl (normalize_hex_byte v)) pre \<and> normalize_hex_byte v = Inl e \<longrightarrow>
        tokens_from_boxes (pre @ v # post) = Inl e)
   \<and> tokens_from_boxes (replicate 8 []) = Inr (replicate 8 None, 256 ^ 8)"
proof (intro conjI impI)
  assume ok: "list_all (\<lambda>v. \<not> isl (normalize_hex_byte v)) vs"
  show "let tokens = map (\<lambda>v. projr (normalize_hex_byte v)) vs in
         tokens_from_boxes vs
           = Inr (tokens, prod_list (map (\<lambda>t. if t = None then 256 else 1) tokens))
         \<and> tokens_from_boxes vs = Inr (tokens, 256 ^ count_list tokens None)
         \<and> length tokens = length vs"
  proof -
    let ?tok = "map (\<lambda>v. projr (normalize_hex_byte v)) vs"
    from tokens_loop_ok [OF ok, of "[]" 1]
    have a: "tokens_loop vs [] 1
             = Inr (?tok, prod_list (map (\<lambda>t. if t = None then 256 else 1) ?tok))"
      by (simp del: map_map)
    have b: "prod_list (map (\<lambda>t. if t = None then 256 else (1::int)) ?tok)
             = 256 ^ count_list ?tok None"
      by (rule prod_wildcards)
    show ?thesis
      unfolding Let_def tokens_from_boxes_def a b by simp
  qed
next
  assume "list_all (\<lambda>v. \<not> isl (normalize_hex_byte v)) pre \<and> normalize_hex_byte v = Inl e"
  then show "tokens_from_boxes (pre @ v # post) = Inl e"
    unfolding tokens_from_boxes_def by (simp add: tokens_loop_fail)
next
  have e: "normalize_hex_byte [] = Inr None" by (simp add: normalize_hex_byte_def strip_def strip_by_def upper_def)
  have "list_all (\<lambda>v. \<not> isl (normalize_hex_byte v)) (replicate 8 [])"
    by (simp add: list_all_iff e)
  from tokens_loop_ok [OF this, of "[]" 1]
  have "tokens_loop (replicate 8 []) [] 1
        = Inr (replicate 8 None,
               prod_list (map (\<lambda>t. if t = None then 256 else 1) (replicate 8 (None :: string option))))"
    by (simp add: e del: map_map)
  then show "tokens_from_boxes (replicate 8 []) = Inr (replicate 8 None, 256 ^ 8)"
    unfolding tokens_from_boxes_def prod_wildcards by (simp add: count_list_replicate)
qed

lemma tokens_examples:
  "list_all (\<lambda>v. \<not> isl (normalize_hex_byte v)) [''1'', '''', ''?'', ''0a'', ''FF'', ''??'', ''0'', ''7'']"
  "map (\<lambda>v. projr (normalize_hex_byte v)) [''1'', '''', ''?'', ''0a'', ''FF'', ''??'', ''0'', ''7'']
   = [Some ''01'', None, None, Some ''0A'', Some ''FF'', None, Some ''00'', Some ''07'']"
  "list_all (\<lambda>v. \<not> isl (normalize_hex_byte v)) [''1'', '''', ''?'']"
  "normalize_hex_byte ''0g'' = Inl (InvalidLiteral ''0G'')"
  "list_all (\<lambda>v. \<not> isl (normalize_hex_byte v)) [''00'', ''11'', ''22'', ''33'', ''44'', ''55'', ''66'', ''77'']"
  "map (\<lambda>v. projr (normalize_hex_byte v)) [''00'', ''11'', ''22'', ''33'', ''44'', ''55'', ''66'', ''77'']
   = [Some ''00'', Some ''11'', Some ''22'', Some ''33'', Some ''44'', Some ''55'', Some ''66'', Some ''77'']"
  by code_simp+

theorem tokens_from_boxes_spec_witness:
  "tokens_from_boxes [''1'', '''', ''?'', ''0a'', ''FF'', ''??'', ''0'', ''7'']
     = Inr ([Some ''01'', None, None, Some ''0A'', Some ''FF'', None, Some ''00'', Some ''07''], 256 ^ 3)
   \<and> tokens_from_boxes [''00'', ''11'', ''22'', ''33'', ''44'', ''55'', ''66'', ''77'']
     = Inr ([Some ''00'', Some ''11'', Some ''22'', Some ''33'', Some ''44'', Some ''55'', Some ''66'', Some ''77''], 1)
   \<and> tokens_from_boxes ([''1'', '''', ''?''] @ ''0g'' # [''FFF'', ''??'', ''0'', ''7''])
     = Inl (InvalidLiteral ''0G'')"
proof (intro conjI)
  show "tokens_from_boxes [''1'', '''', ''?'', ''0a'', ''FF'', ''??'', ''0'', ''7'']
     = Inr ([Some ''01'', None, None, Some ''0A'', Some ''FF'', None, Some ''00'', Some ''07''], 256 ^ 3)"
    using tokens_from_boxes_spec [of "[''1'', '''', ''?'', ''0a'', ''FF'', ''??'', ''0'', ''7'']" "[]" "[]"]
          tokens_examples(1)
    unfolding Let_def tokens_examples(2) by simp
  show "tokens_from_boxes [''00'', ''11'', ''22'', ''33'', ''44'', ''55'', ''66'', ''77'']
     = Inr ([Some ''00'', Some ''11'', Some ''22'', Some ''33'', Some ''44'', Some ''55'', Some ''66'', Some ''77''], 1)"
    using tokens_from_boxes_spec [of "[''00'', ''11'', ''22'', ''33'', ''44'', ''55'', ''66'', ''77'']" "[]" "[]"]
          tokens_examples(5)
    unfolding Let_def tokens_examples(6) by simp
  show "tokens_from_boxes ([''1'', '''', ''?''] @ ''0g'' # [''FFF'', ''??'', ''0'', ''7''])
     = Inl (InvalidLiteral ''0G'')"
    using tokens_from_boxes_spec [of "[]" "[''1'', '''', ''?'']" "''0g''" "InvalidLiteral ''0G''" "[''FFF'', ''??'', ''0'', ''7'']"]
          tokens_examples(3,4)
    by blast
qed

section \<open>Frame transport\<close>

text \<open>
  The bus and the clock are the environment of the engines. A \<open>world\<close> holds
  what the environment will answer: the successive readings of the clock
  (\<open>time.monotonic()\<close>, \<open>time.time()\<close>), the successive results of polling
  the receive queue (\<open>None\<close>: nothing received; an exhausted script: the
  queue stays empty), and the successive results of writing a frame
  (\<open>True\<close>: accepted; an exhausted script: accepted). The \<open>trace\<close> records, in
  order, every frame written to and read from the bus.

  An operation that needs a clock reading when the script has none left
  returns \<open>None\<close>: the script was too short to determine the run.
\<close>

record frame =
  fid :: int
  fdata :: "int list"

datatype event = Sent int "int list" | Rcvd int "int list"

record world =
  clock :: "rat list"
  rxq :: "frame option list"
  wres :: "bool list"
  trace :: "event list"

definition monotonic :: "world \<Rightarrow> (rat \<times> world) option" where
  "monotonic w = (case clock w of [] \<Rightarrow> None | t # ts \<Rightarrow> Some (t, w\<lparr>clock := ts\<rparr>))"

definition transmit :: "world \<Rightarrow> int \<Rightarrow> int list \<Rightarrow> bool \<times> world" where
  "transmit w arbid d =
     (case wres w of
        [] \<Rightarrow> (True, w\<lparr>trace := trace w @ [Sent arbid d]\<rparr>)
      | ok # r \<Rightarrow> (ok, w\<lparr>wres := r, trace := trace w @ (if ok then [Sent arbid d] else [])\<rparr>))"

definition receive :: "world \<Rightarrow> frame option \<times> world" where
  "receive w =
     (case rxq w of
        [] \<Rightarrow> (None, w)
      | r # rs \<Rightarrow>
          (r, w\<lparr>rxq := rs,
                trace := trace w @ (case r of None \<Rightarrow> [] | Some f \<Rightarrow> [Rcvd (fid f) (fdata f)])\<rparr>))"

section \<open>UDS read by identifier: trigger\_finder.uds\_read\_by\_id\<close>

text \<open>
  \<open>_mk_msg\<close> copies at most eight values into an array of eight unsigned
  bytes, which reduces each value modulo 256; \<open>_pcan_write\<close> raises when the
  driver does not accept the frame.
\<close>

definition mk_msg :: "int list \<Rightarrow> int list" where
  "mk_msg data8 = take 8 (map (\<lambda>b. b mod 256) data8) @ replicate (8 - length data8) 0"

definition pcan_write :: "world \<Rightarrow> int \<Rightarrow> int list \<Rightarrow> (py_error + unit) \<times> world" where
  "pcan_write w arbid data8 =
     (case transmit w arbid (mk_msg data8) of
        (True, w') \<Rightarrow> (Inr (), w')
      | (False, w') \<Rightarrow> (Inl PcanWriteError, w'))"

text \<open>
  \<open>_pcan_read_once\<close>: \<open>Some (arbid, dlc, data, ts)\<close> stands for
  \<open>(True, arbid, dlc, data, ts)\<close>, \<open>None\<close> for \<open>(False, None, None, None, None)\<close>.
  A received frame is stamped with a clock reading.
\<close>

definition pcan_read_once :: "world \<Rightarrow> ((int \<times> nat \<times> int list \<times> rat) option \<times> world) option" where
  "pcan_read_once w =
     (case receive w of
        (None, w1) \<Rightarrow> Some (None, w1)
      | (Some f, w1) \<Rightarrow>
          (case monotonic w1 of
             None \<Rightarrow> None
           | Some (ts, w2) \<Rightarrow> Some (Some (fid f, length (fdata f), fdata f, ts), w2)))"

lemma monotonic_clock:
  "monotonic w = Some (t, w1) \<Longrightarrow> length (clock w1) < length (clock w)"
  by (auto simp: monotonic_def split: list.splits)

lemma receive_clock: "receive w = (r, w1) \<Longrightarrow> clock w1 = clock w"
  by (auto simp: receive_def split: list.splits)

lemma pcan_read_once_clock:
  "pcan_read_once w = Some (r, w2) \<Longrightarrow> length (clock w2) \<le> length (clock w)"
  by (auto simp: pcan_read_once_def split: prod.splits option.splits
           dest!: receive_clock monotonic_clock)

record uds_params =
  tx_id :: int
  rx_id :: int
  ea_req :: int
  ea_rsp :: int
  timeout :: rat

text \<open>The inner loop: consecutive frames are appended until a wait times out
  or another frame of the responder arrives.\<close>

function uds_collect :: "uds_params \<Rightarrow> int list \<Rightarrow> rat \<Rightarrow> world
                         \<Rightarrow> ((py_error + int list) \<times> world) option" where
  "uds_collect p payload tf w =
     (case monotonic w of
        None \<Rightarrow> None
      | Some (now, w1) \<Rightarrow>
          if \<not> (now - tf < timeout p) then Some (Inr payload, w1)
          else
            (case pcan_read_once w1 of
               None \<Rightarrow> None
             | Some (None, w2) \<Rightarrow> uds_collect p payload tf w2
             | Some (Some (arbid2, dlc2, data2, ts2), w2) \<Rightarrow>
                 if arbid2 \<noteq> rx_id p \<or> length data2 < 2 \<or> data2 ! 0 \<noteq> ea_rsp p
                 then uds_collect p payload tf w2
                 else if (data2 ! 1) AND 0xF0 = 0x20
                 then (case monotonic w2 of
                         None \<Rightarrow> None
                       | Some (tf', w3) \<Rightarrow> uds_collect p (payload @ drop 2 data2) tf' w3)
                 else Some (Inr payload, w2)))"
  by pat_completeness auto
termination
proof (relation "measure (\<lambda>(p, payload, tf, w). length (clock w))")
  show "wf (measure (\<lambda>(p, payload, tf, w). length (clock w)))" by simp
qed (auto dest!: monotonic_clock pcan_read_once_clock)

declare uds_collect.simps [simp del]

text \<open>The outer loop: the wait for the single frame or the first frame.\<close>

function uds_wait :: "uds_params \<Rightarrow> int \<Rightarrow> int \<Rightarrow> rat \<Rightarrow> world
                      \<Rightarrow> ((py_error + int list) \<times> world) option" where
  "uds_wait p did_h did_l t0 w =
     (case monotonic w of
        None \<Rightarrow> None
      | Some (now, w1) \<Rightarrow>
          if \<not> (now - t0 < timeout p) then Some (Inl TimeoutError, w1)
          else
            (case pcan_read_once w1 of
               None \<Rightarrow> None
             | Some (None, w2) \<Rightarrow> uds_wait p did_h did_l t0 w2
             | Some (Some (arbid, dlc, data, ts), w2) \<Rightarrow>
                 if arbid \<noteq> rx_id p \<or> length data < 2 then uds_wait p did_h did_l t0 w2
                 else if data ! 0 \<noteq> ea_rsp p then uds_wait p did_h did_l t0 w2
                 else
                   let pci = (data ! 1) AND 0xF0 in
                   if pci = 0x00 \<and> length data \<ge> 5 \<and> data ! 2 = 0x62
                      \<and> data ! 3 = did_h \<and> data ! 4 = did_l
                   then let L = (data ! 1) AND 0x0F
                        in Some (Inr (take (nat L) (drop 5 data)), w2)
                   else if pci = 0x10 \<and> length data \<ge> 6 \<and> data ! 3 = 0x62
                           \<and> data ! 4 = did_h \<and> data ! 5 = did_l
                   then (case pcan_write w2 (tx_id p) [ea_req p, 0x30, 0x00, 0x00, 0, 0, 0, 0] of
                           (Inl e, w3) \<Rightarrow> Some (Inl e, w3)
                         | (Inr u, w3) \<Rightarrow>
                             (case monotonic w3 of
                                None \<Rightarrow> None
                              | Some (tf, w4) \<Rightarrow> uds_collect p (drop 6 data) tf w4))
                   else uds_wait p did_h did_l t0 w2))"
  by pat_completeness auto
termination
proof (relation "measure (\<lambda>(p, did_h, did_l, t0, w). length (clock w))")
  show "wf (measure (\<lambda>(p, did_h, did_l, t0, w). length (clock w)))" by simp
qed (auto dest!: monotonic_clock pcan_read_once_clock)

declare uds_wait.simps [simp del]

definition uds_read_by_id :: "world \<Rightarrow> int \<Rightarrow> uds_params
                              \<Rightarrow> ((py_error + int list) \<times> world) option" where
  "uds_read_by_id w did p =
     (let did_h = (drop_bit 8 did) AND 0xFF; did_l = did AND 0xFF in
      case pcan_write w (tx_id p) [ea_req p, 0x03, 0x22, did_h, did_l, 0, 0, 0] of
        (Inl e, w1) \<Rightarrow> Some (Inl e, w1)
      | (Inr u, w1) \<Rightarrow>
          (case monotonic w1 of
             None \<Rightarrow> None
           | Some (t0, w2) \<Rightarrow> uds_wait p did_h did_l t0 w2))"

section \<open>UDS read by identifier: UdsTablePage.\_uds\_read\_by\_identifier\<close>

definition EA_RSP :: int where
  "EA_RSP = 0xF1"

text \<open>
  \<open>_send_frame\<close>: \<open>bytes(data)\<close> raises for a value outside \<open>range(256)\<close>,
  \<open>bus.send\<close> raises when the driver does not accept the frame.
\<close>

definition send_frame :: "world \<Rightarrow> int \<Rightarrow> int list \<Rightarrow> (py_error + unit) \<times> world" where
  "send_frame w arbitration_id d =
     (if list_ex (\<lambda>b. b < 0 \<or> 255 < b) d then (Inl BytesRangeError, w)
      else (case transmit w arbitration_id d of
              (True, w') \<Rightarrow> (Inr (), w')
            | (False, w') \<Rightarrow> (Inl CanSendError, w')))"

text \<open>
  \<open>_recv_until\<close>: the first frame with the awaited arbitration id, zero-filled
  to eight bytes, or \<open>None\<close> once the deadline has passed.
\<close>

function recv_loop :: "int \<Rightarrow> rat \<Rightarrow> world \<Rightarrow> (int list option \<times> world) option" where
  "recv_loop arbitration_id end_t w =
     (case monotonic w of
        None \<Rightarrow> None
      | Some (now, w1) \<Rightarrow>
          if \<not> (now < end_t) then Some (None, w1)
          else
            (case receive w1 of
               (None, w2) \<Rightarrow> recv_loop arbitration_id end_t w2
             | (Some msg, w2) \<Rightarrow>
                 if fid msg \<noteq> arbitration_id then recv_loop arbitration_id end_t w2
                 else
                   let raw = fdata msg;
                       raw = (if length raw < 8 then raw @ replicate (8 - length raw) 0 else raw)
                   in Some (Some raw, w2)))"
  by pat_completeness auto
termination
proof (relation "measure (\<lambda>(a, e, w). length (clock w))")
  show "wf (measure (\<lambda>(a, e, w). length (clock w)))" by simp
qed (auto dest!: monotonic_clock dest: receive_clock [OF sym])

declare recv_loop.simps [simp del]

definition recv_until :: "world \<Rightarrow> int \<Rightarrow> rat \<Rightarrow> (int list option \<times> world) option" where
  "recv_until w arbitration_id timeout_s =
     (case monotonic w of
        None \<Rightarrow> None
      | Some (now, w1) \<Rightarrow> recv_loop arbitration_id (now + timeout_s) w1)"

lemma recv_loop_clock:
  "recv_loop a e w = Some (r, w') \<Longrightarrow> length (clock w') < length (clock w)"
proof (induction a e w rule: recv_loop.induct)
  case (1 a e w)
  from "1.prems" obtain now w1 where m: "monotonic w = Some (now, w1)"
    by (subst (asm) recv_loop.simps) (auto split: option.splits)
  note lt = monotonic_clock [OF m]
  show ?case
  proof (cases "now < e")
    case False
    with "1.prems" m lt show ?thesis
      by (subst (asm) recv_loop.simps) auto
  next
    case True
    obtain r1 w2 where rc: "receive w1 = (r1, w2)" by (cases "receive w1")
    note eq = receive_clock [OF rc]
    show ?thesis
    proof (cases "\<exists>msg. r1 = Some msg \<and> fid msg = a")
      case True
      with "1.prems" m \<open>now < e\<close> rc lt eq show ?thesis
        by (subst (asm) recv_loop.simps) (auto simp: Let_def)
    next
      case False
      with "1.prems" m \<open>now < e\<close> rc have "recv_loop a e w2 = Some (r, w')"
        by (subst (asm) recv_loop.simps) (auto split: option.splits)
      moreover from False have "r1 = None \<or> (\<exists>msg. r1 = Some msg \<and> fid msg \<noteq> a)"
        by (cases r1) auto
      ultimately have "length (clock w') < length (clock w2)"
        using "1.IH" m \<open>now < e\<close> rc by auto
      with lt eq show ?thesis by simp
    qed
  qed
qed

lemma recv_until_clock:
  "recv_until w a t = Some (r, w') \<Longrightarrow> length (clock w') < length (clock w)"
  by (auto simp: recv_until_def split: option.splits
           dest!: recv_loop_clock monotonic_clock)

text \<open>The \<open>while True\<close> loop collecting consecutive frames.\<close>

function cf_loop :: "int \<Rightarrow> int list \<Rightarrow> world \<Rightarrow> ((py_error + int list) \<times> world) option" where
  "cf_loop rx payload w =
     (case recv_until w rx 1 of
        None \<Rightarrow> None
      | Some (None, w1) \<Rightarrow> Some (Inr payload, w1)
      | Some (Some cf, w1) \<Rightarrow>
          if cf ! 0 \<noteq> EA_RSP \<or> (cf ! 1) AND 0xF0 \<noteq> 0x20 then Some (Inr payload, w1)
          else
            let payload = payload @ drop 2 cf in
            if length payload > 128 then Some (Inr payload, w1)
            else cf_loop rx payload w1)"
  by pat_completeness auto
termination
proof (relation "measure (\<lambda>(rx, payload, w). length (clock w))")
  show "wf (measure (\<lambda>(rx, payload, w). length (clock w)))" by simp
qed (auto dest!: recv_until_clock)

declare cf_loop.simps [simp del]

definition uds_read_by_identifier :: "world \<Rightarrow> int \<Rightarrow> int \<Rightarrow> int \<Rightarrow> int
                                      \<Rightarrow> ((py_error + int list) \<times> world) option" where
  "uds_read_by_identifier w tx rx ea_rq did =
     (let did_hi = (drop_bit 8 did) AND 0xFF;
          did_lo = did AND 0xFF;
          request = [ea_rq, 0x03, 0x22, did_hi, did_lo, 0x00, 0x00, 0x00]
      in
      case send_frame w tx request of
        (Inl e, w1) \<Rightarrow> Some (Inl e, w1)
      | (Inr u, w1) \<Rightarrow>
          (case recv_until w1 rx 1 of
             None \<Rightarrow> None
           | Some (None, w2) \<Rightarrow> Some (Inl NoValidResponse, w2)
           | Some (Some first, w2) \<Rightarrow>
               if first ! 0 \<noteq> EA_RSP then Some (Inl NoValidResponse, w2)
               else
                 let pci = (first ! 1) AND 0xF0 in
                 if pci = 0x00 then
                   (if first ! 2 \<noteq> 0x62 \<or> first ! 3 \<noteq> did_hi \<or> first ! 4 \<noteq> did_lo
                    then Some (Inl NegativeSF, w2)
                    else let len = (first ! 1) AND 0x0F
                         in Some (Inr (take (nat len) (drop 5 first)), w2))
                 else if pci = 0x10 then
                   (case send_frame w2 tx [ea_rq, 0x30, 0x00, 0x00, 0, 0, 0, 0] of
                      (Inl e, w3) \<Rightarrow> Some (Inl e, w3)
                    | (Inr u, w3) \<Rightarrow>
                        if first ! 3 \<noteq> 0x62 \<or> first ! 4 \<noteq> did_hi \<or> first ! 5 \<noteq> did_lo
                        then Some (Inl NegativeFF, w3)
                        else cf_loop rx (drop 6 first) w3)
                 else Some (Inl UnexpectedPCI, w2)))"

section \<open>Example profile and bus scripts\<close>

text \<open>\<open>PROFILES["links"]\<close> with the default timeout of one second.\<close>

definition profile_links :: uds_params where
  "profile_links = \<lparr>tx_id = 0x6F1, rx_id = 0x643, ea_req = 0x43, ea_rsp = 0xF1, timeout = 1\<rparr>"

text \<open>A responder that answers the read of DID \<open>0xD631\<close> with one single frame.\<close>

definition w_single :: world where
  "w_single =
     \<lparr>clock = [0, 1/100, 2/100, 3/100],
      rxq = [Some \<lparr>fid = 0x643, fdata = [0xF1, 0x03, 0x62, 0xD6, 0x31, 0xAA, 0xBB, 0xCC]\<rparr>],
      wres = [], trace = []\<rparr>"

text \<open>
  The state of the waiting loop in which the next poll delivers the single
  frame \<open>d\<close> on arbitration id \<open>0x643\<close>, and the states after the clock reading
  and after the poll.
\<close>

definition w_poll :: "int list \<Rightarrow> world" where
  "w_poll d = \<lparr>clock = [1/2, 3/5, 7/10, 2], rxq = [Some \<lparr>fid = 0x643, fdata = d\<rparr>],
               wres = [], trace = []\<rparr>"

definition w_poll1 :: "int list \<Rightarrow> world" where
  "w_poll1 d = \<lparr>clock = [3/5, 7/10, 2], rxq = [Some \<lparr>fid = 0x643, fdata = d\<rparr>],
                wres = [], trace = []\<rparr>"

definition w_poll2 :: "int list \<Rightarrow> world" where
  "w_poll2 d = \<lparr>clock = [7/10, 2], rxq = [], wres = [], trace = [Rcvd 0x643 d]\<rparr>"

text \<open>The same for \<open>_uds_read_by_identifier\<close>, which first sends its request.\<close>

definition w_sent :: "int list \<Rightarrow> int list \<Rightarrow> world" where
  "w_sent request d =
     \<lparr>clock = [1/2, 3/5, 7/10, 2], rxq = [Some \<lparr>fid = 0x643, fdata = d\<rparr>],
      wres = [], trace = [Sent 0x6F1 request]\<rparr>"

definition w_got :: "int list \<Rightarrow> int list \<Rightarrow> world" where
  "w_got request d =
     \<lparr>clock = [7/10, 2], rxq = [], wres = [], trace = [Sent 0x6F1 request, Rcvd 0x643 d]\<rparr>"

text \<open>The end of the script: every frame consumed, the clock read out.\<close>

definition w_end :: "event list \<Rightarrow> world" where
  "w_end evs = \<lparr>clock = [], rxq = [], wres = [], trace = evs\<rparr>"

text \<open>
  A responder that first answers with a single frame for another identifier
  (\<open>0xD632\<close>) and then with the single frame for \<open>0xD631\<close>.
\<close>

definition w_other_did :: world where
  "w_other_did =
     \<lparr>clock = [0, 1/100, 2/100, 3/100, 4/100, 5/100],
      rxq = [Some \<lparr>fid = 0x643, fdata = [0xF1, 0x01, 0x62, 0xD6, 0x32, 0x77, 0x00, 0x00]\<rparr>,
             Some \<lparr>fid = 0x643, fdata = [0xF1, 0x01, 0x62, 0xD6, 0x31, 0x11, 0x00, 0x00]\<rparr>],
      wres = [], trace = []\<rparr>"

text \<open>
  A responder that answers with a first frame and \<open>n\<close> consecutive frames and
  then stays silent; the clock stands still during the transfer and then
  jumps by five seconds.
\<close>

definition w_multi :: "nat \<Rightarrow> world" where
  "w_multi n =
     \<lparr>clock = replicate (3 * n + 8) 0 @ [5, 10, 15, 20],
      rxq = Some \<lparr>fid = 0x643, fdata = [0xF1, 0x10, 0x8C, 0x62, 0xD6, 0x31, 1, 2]\<rparr>
            # replicate n (Some \<lparr>fid = 0x643, fdata = [0xF1, 0x21, 3, 4, 5, 6, 7, 8]\<rparr>),
      wres = [], trace = []\<rparr>"

text \<open>A bus on which only the other unit (arbitration id \<open>0x644\<close>) answers.\<close>

definition w_other_id :: world where
  "w_other_id =
     \<lparr>clock = [0, 1/2, 3/2, 2],
      rxq = [Some \<lparr>fid = 0x644, fdata = [0xF1, 0x03, 0x62, 0xD6, 0x31, 0xAA, 0xBB, 0xCC]\<rparr>],
      wres = [], trace = []\<rparr>"

text \<open>
  Two responders whose single frame ends before position \<open>5 + L\<close>: an
  eight-byte frame that announces five payload bytes, and a six-byte frame
  that announces three.
\<close>

definition w_single_long :: world where
  "w_single_long =
     \<lparr>clock = [0, 1/100, 2/100, 3/100],
      rxq = [Some \<lparr>fid = 0x643, fdata = [0xF1, 0x05, 0x62, 0xD6, 0x63, 0x01, 0x2C, 0x00]\<rparr>],
      wres = [], trace = []\<rparr>"

definition w_single_short :: world where
  "w_single_short =
     \<lparr>clock = [0, 1/100, 2/100, 3/100],
      rxq = [Some \<lparr>fid = 0x643, fdata = [0xF1, 0x03, 0x62, 0xD6, 0x31, 0xAA]\<rparr>],
      wres = [], trace = []\<rparr>"

subsection \<open>Steps of the two engines\<close>

lemma uds_wait_timeout:
  "monotonic w = Some (now, w1) \<Longrightarrow> \<not> (now - t0 < timeout p) \<Longrightarrow>
   uds_wait p did_h did_l t0 w = Some (Inl TimeoutError, w1)"
  by (subst uds_wait.simps) simp

lemma uds_wait_skip:
  "monotonic w = Some (now, w1) \<Longrightarrow> now - t0 < timeout p \<Longrightarrow>
   pcan_read_once w1 = Some (r, w2) \<Longrightarrow>
   (case r of None \<Rightarrow> True
    | Some (arbid, dlc, d, ts) \<Rightarrow> arbid \<noteq> rx_id p \<or> length d < 2 \<or> d ! 0 \<noteq> ea_rsp p) \<Longrightarrow>
   uds_wait p did_h did_l t0 w = uds_wait p did_h did_l t0 w2"
  by (subst uds_wait.simps) (auto split: option.splits)

lemma uds_wait_single:
  "monotonic w = Some (now, w1) \<Longrightarrow> now - t0 < timeout p \<Longrightarrow>
   pcan_read_once w1 = Some (Some (rx_id p, dlc, d, ts), w2) \<Longrightarrow>
   5 \<le> length d \<Longrightarrow> d ! 0 = ea_rsp p \<Longrightarrow> (d ! 1) AND 0xF0 = 0 \<Longrightarrow>
   d ! 2 = 0x62 \<Longrightarrow> d ! 3 = did_h \<Longrightarrow> d ! 4 = did_l \<Longrightarrow>
   uds_wait p did_h did_l t0 w = Some (Inr (take (nat ((d ! 1) AND 0x0F)) (drop 5 d)), w2)"
  by (subst uds_wait.simps) (simp add: Let_def)

lemma uds_wait_single_mismatch:
  "monotonic w = Some (now, w1) \<Longrightarrow> now - t0 < timeout p \<Longrightarrow>
   pcan_read_once w1 = Some (Some (rx_id p, dlc, d, ts), w2) \<Longrightarrow>
   2 \<le> length d \<Longrightarrow> d ! 0 = ea_rsp p \<Longrightarrow> (d ! 1) AND 0xF0 = 0 \<Longrightarrow>
   length d < 5 \<or> d ! 2 \<noteq> 0x62 \<or> d ! 3 \<noteq> did_h \<or> d ! 4 \<noteq> did_l \<Longrightarrow>
   uds_wait p did_h did_l t0 w = uds_wait p did_h did_l t0 w2"
  by (subst uds_wait.simps) (auto simp: Let_def)

lemma uds_wait_first:
  "monotonic w = Some (now, w1) \<Longrightarrow> now - t0 < timeout p \<Longrightarrow>
   pcan_read_once w1 = Some (Some (rx_id p, dlc, d, ts), w2) \<Longrightarrow>
   6 \<le> length d \<Longrightarrow> d ! 0 = ea_rsp p \<Longrightarrow> (d ! 1) AND 0xF0 = 0x10 \<Longrightarrow>
   d ! 3 = 0x62 \<Longrightarrow> d ! 4 = did_h \<Longrightarrow> d ! 5 = did_l \<Longrightarrow>
   pcan_write w2 (tx_id p) [ea_req p, 0x30, 0x00, 0x00, 0, 0, 0, 0] = (Inr (), w3) \<Longrightarrow>
   monotonic w3 = Some (tf, w4) \<Longrightarrow>
   uds_wait p did_h did_l t0 w = uds_collect p (drop 6 d) tf w4"
  by (subst uds_wait.simps) (simp add: Let_def)

lemma uds_collect_timeout:
  "monotonic w = Some (now, w1) \<Longrightarrow> \<not> (now - tf < timeout p) \<Longrightarrow>
   uds_collect p payload tf w = Some (Inr payload, w1)"
  by (subst uds_collect.simps) simp

lemma uds_collect_consecutive:
  "monotonic w = Some (now, w1) \<Longrightarrow> now - tf < timeout p \<Longrightarrow>
   pcan_read_once w1 = Some (Some (rx_id p, dlc, d, ts), w2) \<Longrightarrow>
   2 \<le> length d \<Longrightarrow> d ! 0 = ea_rsp p \<Longrightarrow> (d ! 1) AND 0xF0 = 0x20 \<Longrightarrow>
   monotonic w2 = Some (tf', w3) \<Longrightarrow>
   uds_collect p payload tf w = uds_collect p (payload @ drop 2 d) tf' w3"
  by (subst uds_collect.simps) simp

lemma uds_collect_break:
  "monotonic w = Some (now, w1) \<Longrightarrow> now - tf < timeout p \<Longrightarrow>
   pcan_read_once w1 = Some (Some (rx_id p, dlc, d, ts), w2) \<Longrightarrow>
   2 \<le> length d \<Longrightarrow> d ! 0 = ea_rsp p \<Longrightarrow> (d ! 1) AND 0xF0 \<noteq> 0x20 \<Longrightarrow>
   uds_collect p payload tf w = Some (Inr payload, w2)"
  by (subst uds_collect.simps) simp

lemma uds_read_by_id_wait:
  "pcan_write w (tx_id p) [ea_req p, 0x03, 0x22, (drop_bit 8 did) AND 0xFF, did AND 0xFF, 0, 0, 0]
     = (Inr (), w1) \<Longrightarrow> monotonic w1 = Some (t0, w2) \<Longrightarrow>
   uds_read_by_id w did p = uds_wait p ((drop_bit 8 did) AND 0xFF) (did AND 0xFF) t0 w2"
  by (simp add: uds_read_by_id_def Let_def)

lemma identifier_single:
  "send_frame w tx [ea, 0x03, 0x22, (drop_bit 8 did) AND 0xFF, did AND 0xFF, 0, 0, 0] = (Inr (), w1) \<Longrightarrow>
   recv_until w1 rx 1 = Some (Some first, w2) \<Longrightarrow>
   first ! 0 = EA_RSP \<Longrightarrow> (first ! 1) AND 0xF0 = 0 \<Longrightarrow>
   first ! 2 = 0x62 \<Longrightarrow> first ! 3 = (drop_bit 8 did) AND 0xFF \<Longrightarrow> first ! 4 = did AND 0xFF \<Longrightarrow>
   uds_read_by_identifier w tx rx ea did
     = Some (Inr (take (nat ((first ! 1) AND 0x0F)) (drop 5 first)), w2)"
  by (simp add: uds_read_by_identifier_def Let_def)

lemma identifier_single_negative:
  "send_frame w tx [ea, 0x03, 0x22, (drop_bit 8 did) AND 0xFF, did AND 0xFF, 0, 0, 0] = (Inr (), w1) \<Longrightarrow>
   recv_until w1 rx 1 = Some (Some first, w2) \<Longrightarrow>
   first ! 0 = EA_RSP \<Longrightarrow> (first ! 1) AND 0xF0 = 0 \<Longrightarrow>
   first ! 2 \<noteq> 0x62 \<or> first ! 3 \<noteq> (drop_bit 8 did) AND 0xFF \<or> first ! 4 \<noteq> did AND 0xFF \<Longrightarrow>
   uds_read_by_identifier w tx rx ea did = Some (Inl NegativeSF, w2)"
  by (auto simp: uds_read_by_identifier_def Let_def)

lemma identifier_no_response:
  "send_frame w tx [ea, 0x03, 0x22, (drop_bit 8 did) AND 0xFF, did AND 0xFF, 0, 0, 0] = (Inr (), w1) \<Longrightarrow>
   recv_until w1 rx 1 = Some (None, w2) \<Longrightarrow>
   uds_read_by_identifier w tx rx ea did = Some (Inl NoValidResponse, w2)"
  by (simp add: uds_read_by_identifier_def Let_def)

lemma identifier_first:
  "send_frame w tx [ea, 0x03, 0x22, (drop_bit 8 did) AND 0xFF, did AND 0xFF, 0, 0, 0] = (Inr (), w1) \<Longrightarrow>
   recv_until w1 rx 1 = Some (Some first, w2) \<Longrightarrow>
   first ! 0 = EA_RSP \<Longrightarrow> (first ! 1) AND 0xF0 = 0x10 \<Longrightarrow>
   send_frame w2 tx [ea, 0x30, 0x00, 0x00, 0, 0, 0, 0] = (Inr (), w3) \<Longrightarrow>
   first ! 3 = 0x62 \<Longrightarrow> first ! 4 = (drop_bit 8 did) AND 0xFF \<Longrightarrow> first ! 5 = did AND 0xFF \<Longrightarrow>
   uds_read_by_identifier w tx rx ea did = cf_loop rx (drop 6 first) w3"
  by (simp add: uds_read_by_identifier_def Let_def)

lemma recv_loop_deadline:
  "monotonic w = Some (now, w1) \<Longrightarrow> \<not> (now < end_t) \<Longrightarrow>
   recv_loop a end_t w = Some (None, w1)"
  by (subst recv_loop.simps) simp

lemma cf_loop_timeout:
  "recv_until w rx 1 = Some (None, w1) \<Longrightarrow> cf_loop rx payload w = Some (Inr payload, w1)"
  by (subst cf_loop.simps) simp

lemma cf_loop_break:
  "recv_until w rx 1 = Some (Some cf, w1) \<Longrightarrow>
   cf ! 0 \<noteq> EA_RSP \<or> (cf ! 1) AND 0xF0 \<noteq> 0x20 \<Longrightarrow>
   cf_loop rx payload w = Some (Inr payload, w1)"
  by (subst cf_loop.simps) auto

lemma cf_loop_ceiling:
  "recv_until w rx 1 = Some (Some cf, w1) \<Longrightarrow>
   cf ! 0 = EA_RSP \<Longrightarrow> (cf ! 1) AND 0xF0 = 0x20 \<Longrightarrow>
   128 < length (payload @ drop 2 cf) \<Longrightarrow>
   cf_loop rx payload w = Some (Inr (payload @ drop 2 cf), w1)"
  by (subst cf_loop.simps) (simp add: Let_def)

lemma cf_loop_continue:
  "recv_until w rx 1 = Some (Some cf, w1) \<Longrightarrow>
   cf ! 0 = EA_RSP \<Longrightarrow> (cf ! 1) AND 0xF0 = 0x20 \<Longrightarrow>
   \<not> 128 < length (payload @ drop 2 cf) \<Longrightarrow>
   cf_loop rx payload w = cf_loop rx (payload @ drop 2 cf) w1"
  by (subst cf_loop.simps) (simp add: Let_def)

subsection \<open>Case analysis of one loop iteration\<close>

text \<open>The frame patterns that the waiting loop of \<open>uds_read_by_id\<close> accepts.\<close>

definition addressed :: "uds_params \<Rightarrow> (int \<times> nat \<times> int list \<times> rat) option \<Rightarrow> bool" where
  "addressed p x =
     (case x of None \<Rightarrow> False
      | Some (arbid, dlc, d, ts) \<Rightarrow> arbid = rx_id p \<and> 2 \<le> length d \<and> d ! 0 = ea_rsp p)"

definition single_ok :: "int \<Rightarrow> int \<Rightarrow> int list \<Rightarrow> bool" where
  "single_ok did_h did_l d =
     ((d ! 1) AND 0xF0 = 0x00 \<and> 5 \<le> length d \<and> d ! 2 = 0x62 \<and> d ! 3 = did_h \<and> d ! 4 = did_l)"

definition first_ok :: "int \<Rightarrow> int \<Rightarrow> int list \<Rightarrow> bool" where
  "first_ok did_h did_l d =
     ((d ! 1) AND 0xF0 = 0x10 \<and> 6 \<le> length d \<and> d ! 3 = 0x62 \<and> d ! 4 = did_h \<and> d ! 5 = did_l)"

lemma uds_collect_out:
  "monotonic w = None \<Longrightarrow> uds_collect p payload tf w = None"
  "monotonic w = Some (now, w1) \<Longrightarrow> now - tf < timeout p \<Longrightarrow> pcan_read_once w1 = None \<Longrightarrow>
   uds_collect p payload tf w = None"
  by (subst uds_collect.simps, simp)+

lemma uds_collect_skip:
  "monotonic w = Some (now, w1) \<Longrightarrow> now - tf < timeout p \<Longrightarrow>
   pcan_read_once w1 = Some (x, w2) \<Longrightarrow> \<not> addressed p x \<Longrightarrow>
   uds_collect p payload tf w = uds_collect p payload tf w2"
  by (subst uds_collect.simps) (auto simp: addressed_def split: option.splits)

lemma uds_collect_addressed:
  "monotonic w = Some (now, w1) \<Longrightarrow> now - tf < timeout p \<Longrightarrow>
   pcan_read_once w1 = Some (Some (arbid, dlc, d, ts), w2) \<Longrightarrow>
   addressed p (Some (arbid, dlc, d, ts)) \<Longrightarrow>
   uds_collect p payload tf w =
     (if (d ! 1) AND 0xF0 = 0x20
      then (case monotonic w2 of None \<Rightarrow> None
            | Some (tf', w3) \<Rightarrow> uds_collect p (payload @ drop 2 d) tf' w3)
      else Some (Inr payload, w2))"
  by (subst uds_collect.simps) (simp add: addressed_def)

lemma uds_collect_cases [consumes 1, case_names timeout skip consecutive break]:
  assumes run: "uds_collect p payload tf w = Some (r, w')"
  obtains
    (timeout) now w1 where "monotonic w = Some (now, w1)" "\<not> now - tf < timeout p"
      "r = Inr payload" "w' = w1"
  | (skip) now w1 x w2 where "monotonic w = Some (now, w1)" "now - tf < timeout p"
      "pcan_read_once w1 = Some (x, w2)" "\<not> addressed p x"
      "uds_collect p payload tf w2 = Some (r, w')"
  | (consecutive) now w1 arbid dlc d ts w2 tf' w3 where "monotonic w = Some (now, w1)"
      "now - tf < timeout p"
      "pcan_read_once w1 = Some (Some (arbid, dlc, d, ts), w2)"
      "addressed p (Some (arbid, dlc, d, ts))" "(d ! 1) AND 0xF0 = 0x20"
      "monotonic w2 = Some (tf', w3)"
      "uds_collect p (payload @ drop 2 d) tf' w3 = Some (r, w')"
  | (break) now w1 arbid dlc d ts w2 where "monotonic w = Some (now, w1)"
      "now - tf < timeout p"
      "pcan_read_once w1 = Some (Some (arbid, dlc, d, ts), w2)"
      "addressed p (Some (arbid, dlc, d, ts))" "(d ! 1) AND 0xF0 \<noteq> 0x20"
      "r = Inr payload" "w' = w2"
proof (cases "monotonic w")
  case None
  with run show ?thesis by (simp add: uds_collect_out(1))
next
  case (Some a)
  obtain now w1 where m: "monotonic w = Some (now, w1)" using Some by (cases a) auto
  show ?thesis
  proof (cases "now - tf < timeout p")
    case False
    with run m timeout show ?thesis by (simp add: uds_collect_timeout)
  next
    case True
    show ?thesis
    proof (cases "pcan_read_once w1")
      case None
      with run m True show ?thesis by (simp add: uds_collect_out(2))
    next
      case (Some b)
      obtain x w2 where rd: "pcan_read_once w1 = Some (x, w2)" using Some by (cases b) auto
      show ?thesis
      proof (cases "addressed p x")
        case False
        with run m True rd skip show ?thesis by (simp add: uds_collect_skip)
      next
        case adr: True
        then obtain arbid dlc d ts where x: "x = Some (arbid, dlc, d, ts)"
          by (cases x) (auto simp: addressed_def)
        note eq = uds_collect_addressed [OF m True rd [unfolded x] adr [unfolded x], of payload]
        show ?thesis
        proof (cases "(d ! 1) AND 0xF0 = 0x20")
          case False
          with run eq have "r = Inr payload" "w' = w2" by simp_all
          with m True rd x adr False break show ?thesis by blast
        next
          case cf: True
          show ?thesis
          proof (cases "monotonic w2")
            case None
            with run eq cf show ?thesis by simp
          next
            case (Some c)
            obtain tf' w3 where m2: "monotonic w2 = Some (tf', w3)" using Some by (cases c) auto
            with run eq cf have "uds_collect p (payload @ drop 2 d) tf' w3 = Some (r, w')" by simp
            with m True rd x adr cf m2 consecutive show ?thesis by blast
          qed
        qed
      qed
    qed
  qed
qed

text \<open>What the environment operations do to the trace and to the clock.\<close>

definition is_rcvd :: "event \<Rightarrow> bool" where
  "is_rcvd e = (case e of Rcvd a d \<Rightarrow> True | Sent a d \<Rightarrow> False)"

lemma monotonic_trace: "monotonic w = Some (t, w1) \<Longrightarrow> trace w1 = trace w"
  by (auto simp: monotonic_def split: list.splits)

lemma receive_trace:
  "receive w = (r, w1) \<Longrightarrow>
   trace w1 = trace w @ (case r of None \<Rightarrow> [] | Some f \<Rightarrow> [Rcvd (fid f) (fdata f)])"
  by (auto simp: receive_def split: list.splits)




lemma uds_collect_Inr:
  "uds_collect p payload tf w = Some (r, w') \<Longrightarrow> \<exists>pl. r = Inr pl"
proof (induction "length (clock w)" arbitrary: w payload tf rule: less_induct)
  case less
  from less.prems show ?case
  proof (cases rule: uds_collect_cases)
    case (skip now w1 x w2)
    from skip(1,3) have "length (clock w2) < length (clock w)"
      by (auto dest!: monotonic_clock pcan_read_once_clock)
    from less.hyps [OF this skip(5)] show ?thesis .
  next
    case (consecutive now w1 arbid dlc d ts w2 tf' w3)
    from consecutive(1,3,6) have "length (clock w3) < length (clock w)"
      by (auto dest!: monotonic_clock pcan_read_once_clock)
    from less.hyps [OF this consecutive(7)] show ?thesis .
  qed auto
qed

lemma uds_wait_out:
  "monotonic w = None \<Longrightarrow> uds_wait p did_h did_l t0 w = None"
  "monotonic w = Some (now, w1) \<Longrightarrow> now - t0 < timeout p \<Longrightarrow> pcan_read_once w1 = None \<Longrightarrow>
   uds_wait p did_h did_l t0 w = None"
  by (subst uds_wait.simps, simp)+

lemma uds_wait_unaddressed:
  "monotonic w = Some (now, w1) \<Longrightarrow> now - t0 < timeout p \<Longrightarrow>
   pcan_read_once w1 = Some (x, w2) \<Longrightarrow> \<not> addressed p x \<Longrightarrow>
   uds_wait p did_h did_l t0 w = uds_wait p did_h did_l t0 w2"
  by (subst uds_wait.simps) (auto simp: addressed_def split: option.splits)

lemma uds_wait_addressed:
  "monotonic w = Some (now, w1) \<Longrightarrow> now - t0 < timeout p \<Longrightarrow>
   pcan_read_once w1 = Some (Some (arbid, dlc, d, ts), w2) \<Longrightarrow>
   addressed p (Some (arbid, dlc, d, ts)) \<Longrightarrow>
   uds_wait p did_h did_l t0 w =
     (if single_ok did_h did_l d
      then Some (Inr (take (nat ((d ! 1) AND 0x0F)) (drop 5 d)), w2)
      else if first_ok did_h did_l d
      then (case pcan_write w2 (tx_id p) [ea_req p, 0x30, 0x00, 0x00, 0, 0, 0, 0] of
              (Inl e, w3) \<Rightarrow> Some (Inl e, w3)
            | (Inr u, w3) \<Rightarrow>
                (case monotonic w3 of
                   None \<Rightarrow> None
                 | Some (tf, w4) \<Rightarrow> uds_collect p (drop 6 d) tf w4))
      else uds_wait p did_h did_l t0 w2)"
  by (subst uds_wait.simps) (simp add: addressed_def single_ok_def first_ok_def Let_def)

lemma uds_wait_cases [consumes 1, case_names timeout skip single write_failed first]:
  assumes run: "uds_wait p did_h did_l t0 w = Some (r, w')"
  obtains
    (timeout) now w1 where "monotonic w = Some (now, w1)" "\<not> now - t0 < timeout p"
      "r = Inl TimeoutError" "w' = w1"
  | (skip) now w1 x w2 where "monotonic w = Some (now, w1)" "now - t0 < timeout p"
      "pcan_read_once w1 = Some (x, w2)"
      "uds_wait p did_h did_l t0 w2 = Some (r, w')"
  | (single) now w1 arbid dlc d ts w2 where "monotonic w = Some (now, w1)"
      "now - t0 < timeout p"
      "pcan_read_once w1 = Some (Some (arbid, dlc, d, ts), w2)"
      "addressed p (Some (arbid, dlc, d, ts))" "single_ok did_h did_l d"
      "r = Inr (take (nat ((d ! 1) AND 0x0F)) (drop 5 d))" "w' = w2"
  | (write_failed) now w1 arbid dlc d ts w2 e where "monotonic w = Some (now, w1)"
      "now - t0 < timeout p"
      "pcan_read_once w1 = Some (Some (arbid, dlc, d, ts), w2)"
      "addressed p (Some (arbid, dlc, d, ts))" "first_ok did_h did_l d"
      "pcan_write w2 (tx_id p) [ea_req p, 0x30, 0x00, 0x00, 0, 0, 0, 0] = (Inl e, w')"
      "r = Inl e"
  | (first) now w1 arbid dlc d ts w2 w3 tf w4 where "monotonic w = Some (now, w1)"
      "now - t0 < timeout p"
      "pcan_read_once w1 = Some (Some (arbid, dlc, d, ts), w2)"
      "addressed p (Some (arbid, dlc, d, ts))" "first_ok did_h did_l d"
      "pcan_write w2 (tx_id p) [ea_req p, 0x30, 0x00, 0x00, 0, 0, 0, 0] = (Inr (), w3)"
      "monotonic w3 = Some (tf, w4)"
      "uds_collect p (drop 6 d) tf w4 = Some (r, w')"
proof (cases "monotonic w")
  case None
  with run show ?thesis by (simp add: uds_wait_out(1))
next
  case (Some a)
  obtain now w1 where m: "monotonic w = Some (now, w1)" using Some by (cases a) auto
  show ?thesis
  proof (cases "now - t0 < timeout p")
    case False
    with run m timeout show ?thesis by (simp add: uds_wait_timeout)
  next
    case True
    show ?thesis
    proof (cases "pcan_read_once w1")
      case None
      with run m True show ?thesis by (simp add: uds_wait_out(2))
    next
      case (Some b)
      obtain x w2 where rd: "pcan_read_once w1 = Some (x, w2)" using Some by (cases b) auto
      show ?thesis
      proof (cases "addressed p x")
        case False
        with run m True rd skip show ?thesis by (simp add: uds_wait_unaddressed)
      next
        case adr: True
        then obtain arbid dlc d ts where x: "x = Some (arbid, dlc, d, ts)"
          by (cases x) (auto simp: addressed_def)
        note eq = uds_wait_addressed [OF m True rd [unfolded x] adr [unfolded x], of did_h did_l]
        show ?thesis
        proof (cases "single_ok did_h did_l d")
          case True
          with run eq have "r = Inr (take (nat ((d ! 1) AND 0x0F)) (drop 5 d))" "w' = w2"
            by simp_all
          with m \<open>now - t0 < timeout p\<close> rd x adr True single show ?thesis by blast
        next
          case ns: False
          show ?thesis
          proof (cases "first_ok did_h did_l d")
            case False
            with run eq ns have "uds_wait p did_h did_l t0 w2 = Some (r, w')" by simp
            with m True rd skip show ?thesis by blast
          next
            case ff: True
            obtain res w3 where wr:
              "pcan_write w2 (tx_id p) [ea_req p, 0x30, 0x00, 0x00, 0, 0, 0, 0] = (res, w3)"
              by (cases "pcan_write w2 (tx_id p) [ea_req p, 0x30, 0x00, 0x00, 0, 0, 0, 0]")
            show ?thesis
            proof (cases res)
              case (Inl e)
              with run eq ns ff wr have "r = Inl e" "w' = w3" by simp_all
              with m True rd x adr ff wr Inl write_failed show ?thesis by blast
            next
              case (Inr u)
              show ?thesis
              proof (cases "monotonic w3")
                case None
                with run eq ns ff wr Inr show ?thesis by simp
              next
                case (Some c)
                obtain tf w4 where m3: "monotonic w3 = Some (tf, w4)"
                  using Some by (cases c) auto
                with run eq ns ff wr Inr
                have "uds_collect p (drop 6 d) tf w4 = Some (r, w')" by simp
                with m True rd x adr ff wr Inr m3 first show ?thesis by simp
              qed
            qed
          qed
        qed
      qed
    qed
  qed
qed

lemma pcan_write_cases:
  "pcan_write w a d = (res, w') \<Longrightarrow>
   (res = Inr () \<and> trace w' = trace w @ [Sent a (mk_msg d)] \<and> clock w' = clock w
      \<and> rxq w' = rxq w)
   \<or> (res = Inl PcanWriteError \<and> trace w' = trace w \<and> clock w' = clock w \<and> rxq w' = rxq w)"
  by (auto simp: pcan_write_def transmit_def split: list.splits if_splits)


lemma uds_wait_errors:
  "uds_wait p did_h did_l t0 w = Some (Inl e, w') \<Longrightarrow> e = TimeoutError \<or> e = PcanWriteError"
proof (induction "length (clock w)" arbitrary: w rule: less_induct)
  case less
  from less.prems show ?case
  proof (cases rule: uds_wait_cases)
    case (skip now w1 x w2)
    from skip(1,3) have "length (clock w2) < length (clock w)"
      by (auto dest!: monotonic_clock pcan_read_once_clock)
    from less.hyps [OF this skip(4)] show ?thesis .
  next
    case (write_failed now w1 arbid dlc d ts w2 e')
    then show ?thesis by (auto dest: pcan_write_cases)
  next
    case (first now w1 arbid dlc d ts w2 w3 tf w4)
    then show ?thesis by (auto dest: uds_collect_Inr)
  qed auto
qed


subsection \<open>Case analysis of \<open>_recv_until\<close> and of the consecutive-frame loop\<close>

definition pad8 :: "int list \<Rightarrow> int list" where
  "pad8 raw = (if length raw < 8 then raw @ replicate (8 - length raw) 0 else raw)"

lemma recv_loop_out:
  "monotonic w = None \<Longrightarrow> recv_loop a end_t w = None"
  by (subst recv_loop.simps) simp

lemma recv_loop_step:
  "monotonic w = Some (now, w1) \<Longrightarrow> now < end_t \<Longrightarrow> receive w1 = (x, w2) \<Longrightarrow>
   recv_loop a end_t w =
     (case x of None \<Rightarrow> recv_loop a end_t w2
      | Some msg \<Rightarrow> if fid msg \<noteq> a then recv_loop a end_t w2
                    else Some (Some (pad8 (fdata msg)), w2))"
  by (subst recv_loop.simps) (simp add: pad8_def Let_def split: option.splits)

lemma recv_loop_cases [consumes 1, case_names deadline skip got]:
  assumes run: "recv_loop a end_t w = Some (r, w')"
  obtains
    (deadline) now w1 where "monotonic w = Some (now, w1)" "\<not> now < end_t" "r = None" "w' = w1"
  | (skip) now w1 x w2 where "monotonic w = Some (now, w1)" "now < end_t"
      "receive w1 = (x, w2)" "recv_loop a end_t w2 = Some (r, w')"
  | (got) now w1 msg w2 where "monotonic w = Some (now, w1)" "now < end_t"
      "receive w1 = (Some msg, w2)" "fid msg = a" "r = Some (pad8 (fdata msg))" "w' = w2"
proof (cases "monotonic w")
  case None
  with run show ?thesis by (simp add: recv_loop_out)
next
  case (Some c)
  obtain now w1 where m: "monotonic w = Some (now, w1)" using Some by (cases c) auto
  show ?thesis
  proof (cases "now < end_t")
    case False
    with run m deadline show ?thesis by (simp add: recv_loop_deadline)
  next
    case True
    obtain x w2 where rc: "receive w1 = (x, w2)" by (cases "receive w1")
    note eq = recv_loop_step [OF m True rc, of a]
    show ?thesis
    proof (cases "\<exists>msg. x = Some msg \<and> fid msg = a")
      case True
      then obtain msg where x: "x = Some msg" "fid msg = a" by blast
      with run eq have "r = Some (pad8 (fdata msg))" "w' = w2" by simp_all
      with m \<open>now < end_t\<close> rc x got show ?thesis by blast
    next
      case False
      with run eq have "recv_loop a end_t w2 = Some (r, w')"
        by (cases x) auto
      with m True rc skip show ?thesis by blast
    qed
  qed
qed

definition short_frame :: "frame option \<Rightarrow> bool" where
  "short_frame x = (case x of None \<Rightarrow> True | Some f \<Rightarrow> length (fdata f) \<le> 8)"

lemma monotonic_rxq: "monotonic w = Some (t, w1) \<Longrightarrow> rxq w1 = rxq w"
  by (auto simp: monotonic_def split: list.splits)

lemma receive_rxq:
  "receive w = (x, w1) \<Longrightarrow> list_all short_frame (rxq w) \<Longrightarrow>
   list_all short_frame (rxq w1) \<and> short_frame x"
  by (auto simp: receive_def short_frame_def split: list.splits)

lemma receive_rcvd:
  "receive w = (x, w1) \<Longrightarrow> \<exists>evs. trace w1 = trace w @ evs \<and> list_all is_rcvd evs"
  by (drule receive_trace) (auto simp: is_rcvd_def split: option.splits)

lemma recv_loop_inv:
  "recv_loop a end_t w = Some (r, w') \<Longrightarrow>
   (\<exists>evs. trace w' = trace w @ evs \<and> list_all is_rcvd evs)
   \<and> (list_all short_frame (rxq w) \<longrightarrow>
        list_all short_frame (rxq w') \<and> (case r of None \<Rightarrow> True | Some raw \<Rightarrow> length raw = 8))"
proof (induction "length (clock w)" arbitrary: w rule: less_induct)
  case less
  from less.prems show ?case
  proof (cases rule: recv_loop_cases)
    case (deadline now w1)
    then show ?thesis by (auto dest: monotonic_trace monotonic_rxq)
  next
    case (skip now w1 x w2)
    from skip(1,3) have "length (clock w2) < length (clock w)"
      by (auto dest!: monotonic_clock receive_clock)
    note ih = less.hyps [OF this skip(4)]
    from receive_rcvd [OF skip(3)] monotonic_trace [OF skip(1)] obtain evs0
      where e0: "trace w2 = trace w @ evs0" "list_all is_rcvd evs0" by auto
    from ih obtain evs where e: "trace w' = trace w2 @ evs" "list_all is_rcvd evs" by blast
    have tr: "\<exists>evs. trace w' = trace w @ evs \<and> list_all is_rcvd evs"
      using e0 e by auto
    have "list_all short_frame (rxq w) \<longrightarrow> list_all short_frame (rxq w2)"
      using receive_rxq [OF skip(3)] monotonic_rxq [OF skip(1)] by simp
    with ih tr show ?thesis by blast
  next
    case (got now w1 msg w2)
    from receive_rcvd [OF got(3)] monotonic_trace [OF got(1)] got(6)
    have tr: "\<exists>evs. trace w' = trace w @ evs \<and> list_all is_rcvd evs" by auto
    have "list_all short_frame (rxq w) \<longrightarrow>
          list_all short_frame (rxq w') \<and> length (pad8 (fdata msg)) = 8"
      using receive_rxq [OF got(3)] monotonic_rxq [OF got(1)] got(6)
      by (auto simp: short_frame_def pad8_def)
    with tr got(5) show ?thesis by simp
  qed
qed

lemma recv_until_inv:
  "recv_until w a t = Some (r, w') \<Longrightarrow>
   (\<exists>evs. trace w' = trace w @ evs \<and> list_all is_rcvd evs)
   \<and> (list_all short_frame (rxq w) \<longrightarrow>
        list_all short_frame (rxq w') \<and> (case r of None \<Rightarrow> True | Some raw \<Rightarrow> length raw = 8))"
  by (auto simp: recv_until_def split: option.splits
           dest!: recv_loop_inv dest: monotonic_trace monotonic_rxq)

lemma cf_loop_out: "recv_until w rx 1 = None \<Longrightarrow> cf_loop rx payload w = None"
  by (subst cf_loop.simps) simp

definition consecutive :: "int list \<Rightarrow> bool" where
  "consecutive cf = (cf ! 0 = EA_RSP \<and> (cf ! 1) AND 0xF0 = 0x20)"

lemma cf_loop_cases [consumes 1, case_names timeout break ceiling continue]:
  assumes run: "cf_loop rx payload w = Some (r, w')"
  obtains
    (timeout) "recv_until w rx 1 = Some (None, w')" "r = Inr payload"
  | (break) cf where "recv_until w rx 1 = Some (Some cf, w')" "\<not> consecutive cf"
      "r = Inr payload"
  | (ceiling) cf where "recv_until w rx 1 = Some (Some cf, w')" "consecutive cf"
      "128 < length (payload @ drop 2 cf)" "r = Inr (payload @ drop 2 cf)"
  | (continue) cf w1 where "recv_until w rx 1 = Some (Some cf, w1)" "consecutive cf"
      "\<not> 128 < length (payload @ drop 2 cf)"
      "cf_loop rx (payload @ drop 2 cf) w1 = Some (r, w')"
proof (cases "recv_until w rx 1")
  case None
  with run show ?thesis by (simp add: cf_loop_out)
next
  case (Some c)
  obtain x w1 where ru: "recv_until w rx 1 = Some (x, w1)" using Some by (cases c) auto
  show ?thesis
  proof (cases x)
    case None
    with run ru timeout show ?thesis by (simp add: cf_loop_timeout)
  next
    case (Some cf)
    note ru = ru [unfolded Some]
    show ?thesis
    proof (cases "consecutive cf")
      case False
      then have "cf ! 0 \<noteq> EA_RSP \<or> (cf ! 1) AND 0xF0 \<noteq> 0x20" by (simp add: consecutive_def)
      from cf_loop_break [OF ru this, of payload] run ru False break show ?thesis by simp
    next
      case True
      then have c: "cf ! 0 = EA_RSP" "(cf ! 1) AND 0xF0 = 0x20" by (simp_all add: consecutive_def)
      show ?thesis
      proof (cases "128 < length (payload @ drop 2 cf)")
        case big: True
        from cf_loop_ceiling [OF ru c big] run ru True big ceiling show ?thesis by simp
      next
        case False
        from cf_loop_continue [OF ru c False] run ru True False continue show ?thesis by simp
      qed
    qed
  qed
qed

lemma cf_loop_inv:
  "cf_loop rx payload w = Some (r, w') \<Longrightarrow>
   (\<exists>evs. trace w' = trace w @ evs \<and> list_all is_rcvd evs)
   \<and> (\<exists>pl. r = Inr pl \<and>
         (list_all short_frame (rxq w) \<and> length payload \<le> 128 \<longrightarrow> length pl \<le> 134))"
proof (induction "length (clock w)" arbitrary: w payload rule: less_induct)
  case less
  from less.prems show ?case
  proof (cases rule: cf_loop_cases)
    case timeout
    with recv_until_inv [OF timeout(1)] show ?thesis by auto
  next
    case (break cf)
    with recv_until_inv [OF break(1)] show ?thesis by auto
  next
    case (ceiling cf)
    with recv_until_inv [OF ceiling(1)] show ?thesis by auto
  next
    case (continue cf w1)
    from recv_until_clock [OF continue(1)] have "length (clock w1) < length (clock w)" .
    note ih = less.hyps [OF this continue(4)]
    note ru = recv_until_inv [OF continue(1)]
    from ih ru have tr: "\<exists>evs. trace w' = trace w @ evs \<and> list_all is_rcvd evs"
      by (elim conjE exE) auto
    from ih obtain pl where pl: "r = Inr pl"
      "list_all short_frame (rxq w1) \<and> length (payload @ drop 2 cf) \<le> 128 \<longrightarrow> length pl \<le> 134"
      by blast
    have "list_all short_frame (rxq w) \<and> length payload \<le> 128 \<longrightarrow> length pl \<le> 134"
      using pl(2) ru continue(3) by auto
    with tr pl(1) show ?thesis by blast
  qed
qed


lemma send_frame_cases:
  "send_frame w a d = (res, w') \<Longrightarrow>
   (res = Inr () \<and> trace w' = trace w @ [Sent a d] \<and> clock w' = clock w \<and> rxq w' = rxq w)
   \<or> ((res = Inl BytesRangeError \<or> res = Inl CanSendError)
       \<and> trace w' = trace w \<and> clock w' = clock w \<and> rxq w' = rxq w)"
  by (auto simp: send_frame_def transmit_def split: list.splits if_splits)

subsection \<open>The frames an exchange writes\<close>







subsection \<open>A bus without a response\<close>

text \<open>A frame that the waiting loop of \<open>uds_read_by_id\<close> takes as the response.\<close>

definition response :: "uds_params \<Rightarrow> int \<Rightarrow> int \<Rightarrow> frame option \<Rightarrow> bool" where
  "response p did_h did_l x =
     (case x of
        None \<Rightarrow> False
      | Some f \<Rightarrow> fid f = rx_id p \<and> 2 \<le> length (fdata f) \<and> fdata f ! 0 = ea_rsp p
                  \<and> (single_ok did_h did_l (fdata f) \<or> first_ok did_h did_l (fdata f)))"

definition from_id :: "int \<Rightarrow> frame option \<Rightarrow> bool" where
  "from_id a x = (case x of None \<Rightarrow> False | Some f \<Rightarrow> fid f = a)"

lemma receive_all:
  "receive w = (x, w1) \<Longrightarrow> list_all P (rxq w) \<Longrightarrow>
   list_all P (rxq w1) \<and> (x = None \<or> P x)"
  by (auto simp: receive_def split: list.splits)

lemma pcan_read_once_all:
  assumes rd: "pcan_read_once w = Some (x, w2)" and all: "list_all P (rxq w)"
  shows "list_all P (rxq w2)
         \<and> (case x of None \<Rightarrow> True
             | Some (a, dlc, d, ts) \<Rightarrow> P (Some \<lparr>fid = a, fdata = d\<rparr>))"
proof -
  obtain y w1 where rc: "receive w = (y, w1)" by (cases "receive w")
  note ra = receive_all [OF rc all]
  show ?thesis
  proof (cases y)
    case None
    with rd rc ra show ?thesis by (simp add: pcan_read_once_def)
  next
    case (Some f)
    with rd rc obtain ts w2' where m: "monotonic w1 = Some (ts, w2')"
      and x: "x = Some (fid f, length (fdata f), fdata f, ts)" and w2: "w2 = w2'"
      by (cases "monotonic w1") (auto simp: pcan_read_once_def)
    have "\<lparr>fid = fid f, fdata = fdata f\<rparr> = f" by (cases f) simp
    with ra Some have "P (Some \<lparr>fid = fid f, fdata = fdata f\<rparr>)" by (simp only:) simp
    moreover from ra monotonic_rxq [OF m] w2 have "list_all P (rxq w2)" by simp
    ultimately show ?thesis using x by simp
  qed
qed

lemma uds_wait_no_response:
  "uds_wait p did_h did_l t0 w = Some (r, w') \<Longrightarrow>
   list_all (\<lambda>x. \<not> response p did_h did_l x) (rxq w) \<Longrightarrow> r = Inl TimeoutError"
proof (induction "length (clock w)" arbitrary: w rule: less_induct)
  case less
  note all = less.prems(2)
  from less.prems(1) show ?case
  proof (cases rule: uds_wait_cases)
    case (timeout now w1)
    then show ?thesis by simp
  next
    case (skip now w1 x w2)
    from skip(1,3) have lt: "length (clock w2) < length (clock w)"
      by (auto dest!: monotonic_clock pcan_read_once_clock)
    from all monotonic_rxq [OF skip(1)]
    have "list_all (\<lambda>x. \<not> response p did_h did_l x) (rxq w1)" by simp
    from pcan_read_once_all [OF skip(3) this]
    have "list_all (\<lambda>x. \<not> response p did_h did_l x) (rxq w2)" by simp
    from less.hyps [OF lt skip(4) this] show ?thesis .
  next
    case (single now w1 arbid dlc d ts w2)
    from all monotonic_rxq [OF single(1)]
    have "list_all (\<lambda>x. \<not> response p did_h did_l x) (rxq w1)" by simp
    from pcan_read_once_all [OF single(3) this]
    have "\<not> response p did_h did_l (Some \<lparr>fid = arbid, fdata = d\<rparr>)" by simp
    with single(4,5) show ?thesis by (simp add: response_def addressed_def)
  next
    case (write_failed now w1 arbid dlc d ts w2 e)
    from all monotonic_rxq [OF write_failed(1)]
    have "list_all (\<lambda>x. \<not> response p did_h did_l x) (rxq w1)" by simp
    from pcan_read_once_all [OF write_failed(3) this]
    have "\<not> response p did_h did_l (Some \<lparr>fid = arbid, fdata = d\<rparr>)" by simp
    with write_failed(4,5) show ?thesis by (simp add: response_def addressed_def)
  next
    case (first now w1 arbid dlc d ts w2 w3 tf w4)
    from all monotonic_rxq [OF first(1)]
    have "list_all (\<lambda>x. \<not> response p did_h did_l x) (rxq w1)" by simp
    from pcan_read_once_all [OF first(3) this]
    have "\<not> response p did_h did_l (Some \<lparr>fid = arbid, fdata = d\<rparr>)" by simp
    with first(4,5) show ?thesis by (simp add: response_def addressed_def)
  qed
qed

lemma recv_loop_no_frame:
  "recv_loop a end_t w = Some (r, w') \<Longrightarrow>
   list_all (\<lambda>x. \<not> from_id a x) (rxq w) \<Longrightarrow> r = None"
proof (induction "length (clock w)" arbitrary: w rule: less_induct)
  case less
  note all = less.prems(2)
  from less.prems(1) show ?case
  proof (cases rule: recv_loop_cases)
    case (deadline now w1)
    then show ?thesis by simp
  next
    case (skip now w1 x w2)
    from skip(1,3) have lt: "length (clock w2) < length (clock w)"
      by (auto dest!: monotonic_clock receive_clock)
    from all monotonic_rxq [OF skip(1)]
    have "list_all (\<lambda>x. \<not> from_id a x) (rxq w1)" by simp
    from receive_all [OF skip(3) this]
    have "list_all (\<lambda>x. \<not> from_id a x) (rxq w2)" by simp
    from less.hyps [OF lt skip(4) this] show ?thesis .
  next
    case (got now w1 msg w2)
    from all monotonic_rxq [OF got(1)]
    have "list_all (\<lambda>x. \<not> from_id a x) (rxq w1)" by simp
    from receive_all [OF got(3) this]
    have "\<not> from_id a (Some msg)" by auto
    with got(4) show ?thesis by (simp add: from_id_def)
  qed
qed

lemma identifier_no_frame:
  assumes run: "uds_read_by_identifier v tx rx ea did = Some (r, v')"
    and all: "list_all (\<lambda>x. \<not> from_id rx x) (rxq v)"
  shows "r = Inl NoValidResponse \<or> r = Inl BytesRangeError \<or> r = Inl CanSendError"
proof -
  let ?rq = "[ea, 0x03, 0x22, (drop_bit 8 did) AND 0xFF, did AND 0xFF, 0, 0, 0]"
  obtain res v1 where s: "send_frame v tx ?rq = (res, v1)" by (cases "send_frame v tx ?rq")
  show ?thesis
  proof (cases res)
    case (Inl e)
    with run s send_frame_cases [OF s] show ?thesis
      by (auto simp: uds_read_by_identifier_def Let_def)
  next
    case (Inr u)
    from send_frame_cases [OF s] Inr have q: "rxq v1 = rxq v" by auto
    from run s Inr obtain x v2 where ru: "recv_until v1 rx 1 = Some (x, v2)"
      by (cases "recv_until v1 rx 1") (auto simp: uds_read_by_identifier_def Let_def)
    then obtain now w1 where m: "monotonic v1 = Some (now, w1)"
      and rl: "recv_loop rx (now + 1) w1 = Some (x, v2)"
      by (cases "monotonic v1") (auto simp: recv_until_def)
    from recv_loop_no_frame [OF rl] all q monotonic_rxq [OF m] have "x = None" by simp
    with run s Inr ru show ?thesis by (simp add: uds_read_by_identifier_def Let_def)
  qed
qed

section \<open>Claims about the UDS engines\<close>

text \<open>
  Claim C1, as amended. When the waiting engine receives on \<open>rx_id\<close> a frame
  whose first byte is the extended response address, whose second byte has
  high nibble 0, and whose bytes 2..4 are \<open>[0x62, did_high, did_low]\<close>, it
  returns as payload the bytes of the frame from position 5 up to, and not
  including, position \<open>5+L\<close>, \<open>L\<close> the low nibble of the second byte: the
  \<open>L\<close> bytes after byte 4 when the frame holds them, and otherwise the
  \<open>len - 5\<close> bytes it holds. \<open>uds_read_by_id\<close> slices the frame as received,
  \<open>_uds_read_by_identifier\<close> the frame that \<open>_recv_until\<close> has zero-filled
  to eight bytes. The response \<open>[0xF1, 0x03, 0x62, 0xD6, 0x31, 0xAA, 0xBB, 0xCC]\<close>
  to a read of DID \<open>0xD631\<close> gives \<open>[0xAA, 0xBB, 0xCC]\<close>, in both engines.
\<close>

theorem uds_single_frame_amended:
  "(monotonic w = Some (now, w1) \<and> now - t0 < timeout p
      \<and> pcan_read_once w1 = Some (Some (rx_id p, dlc, d, ts), w2)
      \<and> 5 \<le> length d \<and> d ! 0 = ea_rsp p \<and> (d ! 1) AND 0xF0 = 0
      \<and> d ! 2 = 0x62 \<and> d ! 3 = did_h \<and> d ! 4 = did_l
    \<longrightarrow> uds_wait p did_h did_l t0 w
          = Some (Inr (take (nat ((d ! 1) AND 0x0F)) (drop 5 d)), w2)
        \<and> length (take (nat ((d ! 1) AND 0x0F)) (drop 5 d))
          = min (nat ((d ! 1) AND 0x0F)) (length d - 5))
   \<and> (send_frame v tx [ea, 0x03, 0x22, (drop_bit 8 did) AND 0xFF, did AND 0xFF, 0, 0, 0]
         = (Inr (), v1)
      \<and> recv_until v1 rx 1 = Some (Some first, v2)
      \<and> first ! 0 = EA_RSP \<and> (first ! 1) AND 0xF0 = 0
      \<and> first ! 2 = 0x62 \<and> first ! 3 = (drop_bit 8 did) AND 0xFF \<and> first ! 4 = did AND 0xFF
    \<longrightarrow> uds_read_by_identifier v tx rx ea did
          = Some (Inr (take (nat ((first ! 1) AND 0x0F)) (drop 5 first)), v2)
          \<and> length (take (nat ((first ! 1) AND 0x0F)) (drop 5 first))
            = min (nat ((first ! 1) AND 0x0F)) (length first - 5))
   \<and> map_option fst (uds_read_by_id w_single 0xD631 profile_links) = Some (Inr [0xAA, 0xBB, 0xCC])
   \<and> map_option fst (uds_read_by_identifier w_single 0x6F1 0x643 0x43 0xD631)
        = Some (Inr [0xAA, 0xBB, 0xCC])"
proof (intro conjI impI)
  assume "monotonic w = Some (now, w1) \<and> now - t0 < timeout p
      \<and> pcan_read_once w1 = Some (Some (rx_id p, dlc, d, ts), w2)
      \<and> 5 \<le> length d \<and> d ! 0 = ea_rsp p \<and> (d ! 1) AND 0xF0 = 0
      \<and> d ! 2 = 0x62 \<and> d ! 3 = did_h \<and> d ! 4 = did_l"
  then show "uds_wait p did_h did_l t0 w
          = Some (Inr (take (nat ((d ! 1) AND 0x0F)) (drop 5 d)), w2)"
    by (elim conjE) (rule uds_wait_single)
next
  show "length (take (nat ((d ! 1) AND 0x0F)) (drop 5 d))
          = min (nat ((d ! 1) AND 0x0F)) (length d - 5)"
    by simp
next
  assume "send_frame v tx [ea, 0x03, 0x22, (drop_bit 8 did) AND 0xFF, did AND 0xFF, 0, 0, 0]
         = (Inr (), v1)
      \<and> recv_until v1 rx 1 = Some (Some first, v2)
      \<and> first ! 0 = EA_RSP \<and> (first ! 1) AND 0xF0 = 0
      \<and> first ! 2 = 0x62 \<and> first ! 3 = (drop_bit 8 did) AND 0xFF \<and> first ! 4 = did AND 0xFF"
  then show "uds_read_by_identifier v tx rx ea did
          = Some (Inr (take (nat ((first ! 1) AND 0x0F)) (drop 5 first)), v2)"
    by (elim conjE) (rule identifier_single)
next
  show "length (take (nat ((first ! 1) AND 0x0F)) (drop 5 first))
          = min (nat ((first ! 1) AND 0x0F)) (length first - 5)"
    by simp
next
  show "map_option fst (uds_read_by_id w_single 0xD631 profile_links)
        = Some (Inr [0xAA, 0xBB, 0xCC])"
    by code_simp
next
  show "map_option fst (uds_read_by_identifier w_single 0x6F1 0x643 0x43 0xD631)
        = Some (Inr [0xAA, 0xBB, 0xCC])"
    by code_simp
qed

lemma poll_facts:
  "monotonic (w_poll d) = Some (1/2, w_poll1 d)"
  "pcan_read_once (w_poll1 d) = Some (Some (0x643, length d, d, 3/5), w_poll2 d)"
  "rx_id profile_links = 0x643" "ea_rsp profile_links = 0xF1" "timeout profile_links = 1"
  "tx_id profile_links = 0x6F1" "ea_req profile_links = 0x43"
  by (simp_all add: monotonic_def pcan_read_once_def receive_def w_poll_def w_poll1_def
        w_poll2_def profile_links_def)

lemma sent_facts:
  "\<not> list_ex (\<lambda>b. b < 0 \<or> 255 < b) request \<Longrightarrow>
   send_frame (w_poll d) 0x6F1 request = (Inr (), w_sent request d)"
  "recv_until (w_sent request d) 0x643 1
     = Some (Some (if length d < 8 then d @ replicate (8 - length d) 0 else d), w_got request d)"
  by (simp_all add: send_frame_def transmit_def recv_until_def monotonic_def receive_def
        recv_loop.simps [of _ _ "\<lparr>clock = [3/5, 7/10, 2], rxq = x, wres = y, trace = z\<rparr>" for x y z]
        w_poll_def w_sent_def w_got_def)

theorem uds_single_frame_amended_witness:
  "uds_wait profile_links 0xD6 0x63 0 (w_poll [0xF1, 0x02, 0x62, 0xD6, 0x63, 0x01, 0x2C, 0x00])
     = Some (Inr [0x01, 0x2C], w_poll2 [0xF1, 0x02, 0x62, 0xD6, 0x63, 0x01, 0x2C, 0x00])
   \<and> uds_read_by_identifier (w_poll [0xF1, 0x02, 0x62, 0xD6, 0x63, 0x01, 0x2C, 0x00])
        0x6F1 0x643 0x43 0xD663
     = Some (Inr [0x01, 0x2C],
             w_got [0x43, 0x03, 0x22, 0xD6, 0x63, 0, 0, 0]
                   [0xF1, 0x02, 0x62, 0xD6, 0x63, 0x01, 0x2C, 0x00])"
proof -
  let ?d = "[0xF1, 0x02, 0x62, 0xD6, 0x63, 0x01, 0x2C, 0x00] :: int list"
  let ?rq = "[0x43, 0x03, 0x22, 0xD6, 0x63, 0, 0, 0] :: int list"
  have did: "(drop_bit 8 (0xD663 :: int)) AND 0xFF = 0xD6" "(0xD663 :: int) AND 0xFF = 0x63"
    by simp_all
  have bits: "(0x02 :: int) AND 0xF0 = 0" "nat ((0x02 :: int) AND 0x0F) = 2" by simp_all
  have a: "uds_wait profile_links 0xD6 0x63 0 (w_poll ?d) = Some (Inr [0x01, 0x2C], w_poll2 ?d)"
    using uds_single_frame_amended [where w = "w_poll ?d" and now = "1/2" and ?w1.0 = "w_poll1 ?d"
            and ?t0.0 = 0 and p = profile_links and dlc = 8 and d = ?d and ts = "3/5"
            and ?w2.0 = "w_poll2 ?d" and did_h = "0xD6" and did_l = "0x63"]
          poll_facts(1,2) [of ?d] poll_facts(3-7) bits
    by simp
  have s: "send_frame (w_poll ?d) 0x6F1 ?rq = (Inr (), w_sent ?rq ?d)"
    by (rule sent_facts(1)) simp
  have b: "uds_read_by_identifier (w_poll ?d) 0x6F1 0x643 0x43 0xD663
           = Some (Inr [0x01, 0x2C], w_got ?rq ?d)"
    using uds_single_frame_amended [where v = "w_poll ?d" and tx = "0x6F1" and ea = "0x43"
            and did = "0xD663" and ?v1.0 = "w_sent ?rq ?d" and rx = "0x643" and first = ?d
            and ?v2.0 = "w_got ?rq ?d"]
          s sent_facts(2) [of ?rq ?d] did bits
    by (simp add: EA_RSP_def)
  from a b show ?thesis by simp
qed

text \<open>
  The claim as stated fails where the frame ends before position \<open>5+L\<close>. The
  eight-byte response \<open>[0xF1, 0x05, 0x62, 0xD6, 0x63, 0x01, 0x2C, 0x00]\<close> to a
  read of DID \<open>0xD663\<close> announces \<open>L = 5\<close> and yields three bytes, in both
  engines. The six-byte response \<open>[0xF1, 0x03, 0x62, 0xD6, 0x31, 0xAA]\<close> to a
  read of DID \<open>0xD631\<close> announces \<open>L = 3\<close>: \<open>uds_read_by_id\<close> yields one
  byte, and \<open>_uds_read_by_identifier\<close> yields three bytes of which two are
  the zero fill and not bytes of the response.
\<close>

theorem uds_single_frame_counterexample:
  "map_option fst (uds_read_by_id w_single_long 0xD663 profile_links)
     = Some (Inr [0x01, 0x2C, 0x00])
   \<and> map_option fst (uds_read_by_identifier w_single_long 0x6F1 0x643 0x43 0xD663)
     = Some (Inr [0x01, 0x2C, 0x00])
   \<and> nat ((0x05 :: int) AND 0x0F) = 5
   \<and> length [0x01, 0x2C, 0x00 :: int] \<noteq> 5
   \<and> map_option fst (uds_read_by_id w_single_short 0xD631 profile_links) = Some (Inr [0xAA])
   \<and> map_option fst (uds_read_by_identifier w_single_short 0x6F1 0x643 0x43 0xD631)
     = Some (Inr [0xAA, 0x00, 0x00])
   \<and> nat ((0x03 :: int) AND 0x0F) = 3
   \<and> length [0xAA :: int] \<noteq> 3"
  by code_simp
text \<open>
  Claim C2, as amended. In \<open>_uds_read_by_identifier\<close>, when the frame the
  initial wait returns is a single frame (first byte the extended response
  address, high nibble of the second byte 0) whose bytes 2..4 are not
  \<open>[0x62, did_high, did_low]\<close>, the exchange fails with the negative-response
  error. \<open>uds_read_by_id\<close> has no such failure: it passes over the frame and
  keeps waiting, and the only errors it raises are the timeout and the write
  error.
\<close>

theorem uds_negative_single_amended:
  "(send_frame v tx [ea, 0x03, 0x22, (drop_bit 8 did) AND 0xFF, did AND 0xFF, 0, 0, 0]
         = (Inr (), v1)
      \<and> recv_until v1 rx 1 = Some (Some first, v2)
      \<and> first ! 0 = EA_RSP \<and> (first ! 1) AND 0xF0 = 0
      \<and> (first ! 2 \<noteq> 0x62 \<or> first ! 3 \<noteq> (drop_bit 8 did) AND 0xFF \<or> first ! 4 \<noteq> did AND 0xFF)
    \<longrightarrow> uds_read_by_identifier v tx rx ea did = Some (Inl NegativeSF, v2))
   \<and> (monotonic w = Some (now, w1) \<and> now - t0 < timeout p
      \<and> pcan_read_once w1 = Some (Some (rx_id p, dlc, d, ts), w2)
      \<and> 2 \<le> length d \<and> d ! 0 = ea_rsp p \<and> (d ! 1) AND 0xF0 = 0
      \<and> (length d < 5 \<or> d ! 2 \<noteq> 0x62 \<or> d ! 3 \<noteq> did_h \<or> d ! 4 \<noteq> did_l)
    \<longrightarrow> uds_wait p did_h did_l t0 w = uds_wait p did_h did_l t0 w2)
   \<and> (uds_wait p did_h did_l t0 w = Some (Inl e, w') \<longrightarrow> e = TimeoutError \<or> e = PcanWriteError)"
proof (intro conjI impI)
  assume "send_frame v tx [ea, 0x03, 0x22, (drop_bit 8 did) AND 0xFF, did AND 0xFF, 0, 0, 0]
         = (Inr (), v1)
      \<and> recv_until v1 rx 1 = Some (Some first, v2)
      \<and> first ! 0 = EA_RSP \<and> (first ! 1) AND 0xF0 = 0
      \<and> (first ! 2 \<noteq> 0x62 \<or> first ! 3 \<noteq> (drop_bit 8 did) AND 0xFF \<or> first ! 4 \<noteq> did AND 0xFF)"
  then show "uds_read_by_identifier v tx rx ea did = Some (Inl NegativeSF, v2)"
    by (elim conjE) (rule identifier_single_negative)
next
  assume "monotonic w = Some (now, w1) \<and> now - t0 < timeout p
      \<and> pcan_read_once w1 = Some (Some (rx_id p, dlc, d, ts), w2)
      \<and> 2 \<le> length d \<and> d ! 0 = ea_rsp p \<and> (d ! 1) AND 0xF0 = 0
      \<and> (length d < 5 \<or> d ! 2 \<noteq> 0x62 \<or> d ! 3 \<noteq> did_h \<or> d ! 4 \<noteq> did_l)"
  then show "uds_wait p did_h did_l t0 w = uds_wait p did_h did_l t0 w2"
    by (elim conjE) (rule uds_wait_single_mismatch)
next
  assume "uds_wait p did_h did_l t0 w = Some (Inl e, w')"
  then show "e = TimeoutError \<or> e = PcanWriteError" by (rule uds_wait_errors)
qed

lemma w_poll2_silent:
  "uds_wait profile_links did_h did_l 0 (w_poll2 d) = Some (Inl TimeoutError, w_end [Rcvd 0x643 d])"
  by (simp add: uds_wait.simps [of _ _ _ _ "\<lparr>clock = c, rxq = [], wres = y, trace = z\<rparr>" for c y z]
        monotonic_def pcan_read_once_def receive_def w_poll2_def w_end_def profile_links_def)

theorem uds_negative_single_amended_witness:
  "uds_read_by_identifier (w_poll [0xF1, 0x01, 0x62, 0xD6, 0x32, 0x77, 0x00, 0x00])
        0x6F1 0x643 0x43 0xD631
     = Some (Inl NegativeSF,
             w_got [0x43, 0x03, 0x22, 0xD6, 0x31, 0, 0, 0]
                   [0xF1, 0x01, 0x62, 0xD6, 0x32, 0x77, 0x00, 0x00])
   \<and> uds_wait profile_links 0xD6 0x31 0 (w_poll [0xF1, 0x01, 0x62, 0xD6, 0x32, 0x77, 0x00, 0x00])
     = Some (Inl TimeoutError, w_end [Rcvd 0x643 [0xF1, 0x01, 0x62, 0xD6, 0x32, 0x77, 0x00, 0x00]])"
proof -
  let ?d = "[0xF1, 0x01, 0x62, 0xD6, 0x32, 0x77, 0x00, 0x00] :: int list"
  let ?rq = "[0x43, 0x03, 0x22, 0xD6, 0x31, 0, 0, 0] :: int list"
  note inst = uds_negative_single_amended [where v = "w_poll ?d" and tx = "0x6F1" and ea = "0x43"
            and did = "0xD631" and ?v1.0 = "w_sent ?rq ?d" and rx = "0x643" and first = ?d
            and ?v2.0 = "w_got ?rq ?d"
            and w = "w_poll ?d" and now = "1/2" and ?w1.0 = "w_poll1 ?d"
            and ?t0.0 = 0 and p = profile_links and dlc = 8 and d = ?d and ts = "3/5"
            and ?w2.0 = "w_poll2 ?d" and did_h = "0xD6" and did_l = "0x31"
            and e = TimeoutError and w' = "w_end [Rcvd 0x643 ?d]"]
  have did: "(drop_bit 8 (0xD631 :: int)) AND 0xFF = 0xD6" "(0xD631 :: int) AND 0xFF = 0x31"
    by simp_all
  have bits: "(0x01 :: int) AND 0xF0 = 0" by simp
  have s: "send_frame (w_poll ?d) 0x6F1 ?rq = (Inr (), w_sent ?rq ?d)"
    by (rule sent_facts(1)) simp
  have a: "uds_read_by_identifier (w_poll ?d) 0x6F1 0x643 0x43 0xD631
           = Some (Inl NegativeSF, w_got ?rq ?d)"
    using inst s sent_facts(2) [of ?rq ?d] did bits by (simp add: EA_RSP_def)
  have b: "uds_wait profile_links 0xD6 0x31 0 (w_poll ?d)
           = uds_wait profile_links 0xD6 0x31 0 (w_poll2 ?d)"
    using inst poll_facts(1,2) [of ?d] poll_facts(3-7) bits by simp
  from a b w_poll2_silent [of "0xD6" "0x31" ?d] show ?thesis by simp
qed

text \<open>
  The claim as stated fails for \<open>uds_read_by_id\<close>: a single frame for another
  identifier is passed over, and the payload of the frame that follows it is
  returned.
\<close>

theorem uds_negative_single_counterexample:
  "map_option fst (uds_read_by_id w_other_did 0xD631 profile_links) = Some (Inr [0x11])"
  by code_simp




lemma identifier_bound:
  assumes run: "uds_read_by_identifier v tx rx ea did = Some (Inr pl, v')"
    and short: "list_all short_frame (rxq v)"
  shows "length pl \<le> 134"
proof -
  let ?rq = "[ea, 0x03, 0x22, (drop_bit 8 did) AND 0xFF, did AND 0xFF, 0, 0, 0]"
  obtain res v1 where s: "send_frame v tx ?rq = (res, v1)" by (cases "send_frame v tx ?rq")
  from send_frame_cases [OF s] run s have res: "res = Inr ()" and q1: "rxq v1 = rxq v"
    by (auto simp: uds_read_by_identifier_def Let_def)
  with run s obtain x v2 where ru: "recv_until v1 rx 1 = Some (x, v2)"
    by (cases "recv_until v1 rx 1") (auto simp: uds_read_by_identifier_def Let_def)
  with run s res obtain first where x: "x = Some first"
    by (cases x) (auto simp: uds_read_by_identifier_def Let_def)
  from recv_until_inv [OF ru] short q1 x
  have q2: "list_all short_frame (rxq v2)" and len: "length first = 8" by auto
  from run s res ru x have ea: "first ! 0 = EA_RSP"
    by (auto simp: uds_read_by_identifier_def Let_def split: if_splits)
  show ?thesis
  proof (cases "(first ! 1) AND 0xF0 = 0")
    case True
    with run s res ru x ea len show ?thesis
      by (auto simp: uds_read_by_identifier_def Let_def split: if_splits)
  next
    case False
    with run s res ru x ea have pci: "(first ! 1) AND 0xF0 = 0x10"
      by (auto simp: uds_read_by_identifier_def Let_def split: if_splits)
    let ?fc = "[ea, 0x30, 0x00, 0x00, 0, 0, 0, 0]"
    obtain res3 v3 where s3: "send_frame v2 tx ?fc = (res3, v3)" by (cases "send_frame v2 tx ?fc")
    from send_frame_cases [OF s3] run s res ru x ea pci s3
    have res3: "res3 = Inr ()" and q3: "rxq v3 = rxq v2"
      by (auto simp: uds_read_by_identifier_def Let_def)
    from run s res ru x ea pci s3 res3
    have "cf_loop rx (drop 6 first) v3 = Some (Inr pl, v')"
      by (auto simp: uds_read_by_identifier_def Let_def split: if_splits)
    from cf_loop_inv [OF this] q2 q3 len show ?thesis by auto
  qed
qed

text \<open>
  Claim C4, as amended. In \<open>_uds_read_by_identifier\<close> the collection of
  consecutive frames stops as soon as the accumulated payload is longer than
  128 bytes, so that on a bus whose frames carry at most eight data bytes the
  returned payload has at most 128 + 6 bytes. \<open>uds_read_by_id\<close> has no such
  ceiling: whatever the length collected so far, a consecutive frame that
  arrives within the timeout is appended and the collection goes on.
\<close>

theorem uds_ceiling_amended:
  "(uds_read_by_identifier v tx rx ea did = Some (Inr pl, v') \<and> list_all short_frame (rxq v)
    \<longrightarrow> length pl \<le> 134)
   \<and> (recv_until u rx 1 = Some (Some cf, u1) \<and> cf ! 0 = EA_RSP \<and> (cf ! 1) AND 0xF0 = 0x20
      \<and> 128 < length (payload @ drop 2 cf)
    \<longrightarrow> cf_loop rx payload u = Some (Inr (payload @ drop 2 cf), u1))
   \<and> (monotonic w = Some (now, w1) \<and> now - tf < timeout p
      \<and> pcan_read_once w1 = Some (Some (rx_id p, dlc, d, ts), w2)
      \<and> 2 \<le> length d \<and> d ! 0 = ea_rsp p \<and> (d ! 1) AND 0xF0 = 0x20
      \<and> monotonic w2 = Some (tf', w3)
    \<longrightarrow> uds_collect p payload tf w = uds_collect p (payload @ drop 2 d) tf' w3)"
proof (intro conjI impI)
  assume "uds_read_by_identifier v tx rx ea did = Some (Inr pl, v') \<and> list_all short_frame (rxq v)"
  then show "length pl \<le> 134" by (elim conjE) (rule identifier_bound)
next
  assume "recv_until u rx 1 = Some (Some cf, u1) \<and> cf ! 0 = EA_RSP \<and> (cf ! 1) AND 0xF0 = 0x20
      \<and> 128 < length (payload @ drop 2 cf)"
  then show "cf_loop rx payload u = Some (Inr (payload @ drop 2 cf), u1)"
    by (elim conjE) (rule cf_loop_ceiling)
next
  assume "monotonic w = Some (now, w1) \<and> now - tf < timeout p
      \<and> pcan_read_once w1 = Some (Some (rx_id p, dlc, d, ts), w2)
      \<and> 2 \<le> length d \<and> d ! 0 = ea_rsp p \<and> (d ! 1) AND 0xF0 = 0x20
      \<and> monotonic w2 = Some (tf', w3)"
  then show "uds_collect p payload tf w = uds_collect p (payload @ drop 2 d) tf' w3"
    by (elim conjE) (rule uds_collect_consecutive)
qed

lemma w_multi_facts:
  "map_option fst (uds_read_by_identifier (w_multi 30) 0x6F1 0x643 0x43 0xD631)
     = Some (Inr ([1, 2] @ concat (replicate 22 [3, 4, 5, 6, 7, 8])))"
  "list_all short_frame (rxq (w_multi 30))"
  by code_simp+

lemma w_multi_run:
  "\<exists>v'. uds_read_by_identifier (w_multi 30) 0x6F1 0x643 0x43 0xD631
         = Some (Inr ([1, 2] @ concat (replicate 22 [3, 4, 5, 6, 7, 8])), v')"
  using w_multi_facts(1)
  by (cases "uds_read_by_identifier (w_multi 30) 0x6F1 0x643 0x43 0xD631") auto

lemma cf_facts:
  "recv_until (w_sent rq d) 0x643 1 = Some (Some d, w_got rq d)" if "length d = 8"
  using sent_facts(2) [of rq d] that by simp

theorem uds_ceiling_amended_witness:
  "length ([1, 2] @ concat (replicate 22 [3, 4, 5, 6, 7, 8 :: int])) \<le> 134
   \<and> cf_loop 0x643 (replicate 128 0) (w_sent [] [0xF1, 0x21, 3, 4, 5, 6, 7, 8])
       = Some (Inr (replicate 128 0 @ [3, 4, 5, 6, 7, 8]), w_got [] [0xF1, 0x21, 3, 4, 5, 6, 7, 8])
   \<and> uds_collect profile_links (replicate 200 0) 0 (w_poll [0xF1, 0x21, 3, 4, 5, 6, 7, 8])
       = uds_collect profile_links (replicate 200 0 @ [3, 4, 5, 6, 7, 8]) (7/10)
           \<lparr>clock = [2], rxq = [], wres = [], trace = [Rcvd 0x643 [0xF1, 0x21, 3, 4, 5, 6, 7, 8]]\<rparr>"
proof -
  let ?cf = "[0xF1, 0x21, 3, 4, 5, 6, 7, 8] :: int list"
  let ?w3 = "\<lparr>clock = [2], rxq = [], wres = [], trace = [Rcvd 0x643 ?cf]\<rparr> :: world"
  from w_multi_run obtain v' where run:
    "uds_read_by_identifier (w_multi 30) 0x6F1 0x643 0x43 0xD631
       = Some (Inr ([1, 2] @ concat (replicate 22 [3, 4, 5, 6, 7, 8])), v')" by blast
  have a: "length ([1, 2] @ concat (replicate 22 [3, 4, 5, 6, 7, 8 :: int])) \<le> 134"
    using uds_ceiling_amended [where v = "w_multi 30" and tx = "0x6F1" and rx = "0x643"
        and ea = "0x43" and did = "0xD631" and v' = v'
        and pl = "[1, 2] @ concat (replicate 22 [3, 4, 5, 6, 7, 8])"]
      run w_multi_facts(2) by blast
  have bits: "(0x21 :: int) AND 0xF0 = 0x20" by simp
  have b: "cf_loop 0x643 (replicate 128 0) (w_sent [] ?cf)
           = Some (Inr (replicate 128 0 @ [3, 4, 5, 6, 7, 8]), w_got [] ?cf)"
    using uds_ceiling_amended [where u = "w_sent [] ?cf" and rx = "0x643" and cf = ?cf
        and ?u1.0 = "w_got [] ?cf" and payload = "replicate 128 0"]
      cf_facts [of ?cf "[]"] bits by (simp add: EA_RSP_def)
  have m2: "monotonic (w_poll2 ?cf) = Some (7/10, ?w3)"
    by (simp add: monotonic_def w_poll2_def)
  have c: "uds_collect profile_links (replicate 200 0) 0 (w_poll ?cf)
           = uds_collect profile_links (replicate 200 0 @ [3, 4, 5, 6, 7, 8]) (7/10) ?w3"
    using uds_ceiling_amended [where w = "w_poll ?cf" and now = "1/2" and ?w1.0 = "w_poll1 ?cf"
        and tf = 0 and p = profile_links and dlc = 8 and d = ?cf and ts = "3/5"
        and ?w2.0 = "w_poll2 ?cf" and tf' = "7/10" and ?w3.0 = ?w3
        and payload = "replicate 200 0"]
      poll_facts(1,2) [of ?cf] poll_facts(3-7) m2 bits by simp
  from a b c show ?thesis by blast
qed

text \<open>
  The claim as stated fails for \<open>uds_read_by_id\<close>: with 23 consecutive frames on
  the bus it returns 2 + 23 * 6 = 140 bytes, more than 128 plus one frame.
\<close>

theorem uds_ceiling_counterexample:
  "map_option (\<lambda>(r, w). case r of Inr pl \<Rightarrow> int (length pl) | Inl e \<Rightarrow> - 1)
     (uds_read_by_id (w_multi 23) 0xD631 profile_links) = Some 140"
  by code_simp

text \<open>
  Claim C5, as amended. When the initial wait ends without a response the call
  fails: \<open>uds_read_by_id\<close> raises \<open>TimeoutError\<close> as soon as its loop reads
  the clock at or past the timeout, and \<open>_uds_read_by_identifier\<close> raises its
  "no valid response" error when \<open>_recv_until\<close> gives up at its deadline; on a
  bus that delivers no response frame these are the only outcomes of the wait. When
  the wait for a consecutive frame times out, both engines end the reassembly
  and return the payload collected so far, without a failure.
\<close>

theorem uds_timeout_amended:
  "(monotonic w = Some (now, w1) \<and> \<not> now - t0 < timeout p
    \<longrightarrow> uds_wait p did_h did_l t0 w = Some (Inl TimeoutError, w1))
   \<and> (monotonic w = Some (now, w1) \<and> \<not> now - tf < timeout p
    \<longrightarrow> uds_collect p payload tf w = Some (Inr payload, w1))
   \<and> (monotonic w = Some (now, w1) \<and> \<not> now < end_t
    \<longrightarrow> recv_loop rx end_t w = Some (None, w1))
   \<and> (send_frame v tx [ea, 0x03, 0x22, (drop_bit 8 did) AND 0xFF, did AND 0xFF, 0, 0, 0]
         = (Inr (), v1)
      \<and> recv_until v1 rx 1 = Some (None, v2)
    \<longrightarrow> uds_read_by_identifier v tx rx ea did = Some (Inl NoValidResponse, v2))
   \<and> (recv_until v rx 1 = Some (None, v2)
    \<longrightarrow> cf_loop rx payload v = Some (Inr payload, v2))
   \<and> (list_all (\<lambda>x. \<not> response p did_h did_l x) (rxq w)
    \<longrightarrow> map_option fst (uds_wait p did_h did_l t0 w) \<in> {None, Some (Inl TimeoutError)})
   \<and> (list_all (\<lambda>x. \<not> from_id rx x) (rxq v)
    \<longrightarrow> map_option fst (uds_read_by_identifier v tx rx ea did)
          \<in> {None, Some (Inl NoValidResponse), Some (Inl BytesRangeError),
              Some (Inl CanSendError)})"
proof (intro conjI impI)
  assume "monotonic w = Some (now, w1) \<and> \<not> now - t0 < timeout p"
  then show "uds_wait p did_h did_l t0 w = Some (Inl TimeoutError, w1)"
    by (elim conjE) (rule uds_wait_timeout)
next
  assume "monotonic w = Some (now, w1) \<and> \<not> now - tf < timeout p"
  then show "uds_collect p payload tf w = Some (Inr payload, w1)"
    by (elim conjE) (rule uds_collect_timeout)
next
  assume "monotonic w = Some (now, w1) \<and> \<not> now < end_t"
  then show "recv_loop rx end_t w = Some (None, w1)"
    by (elim conjE) (rule recv_loop_deadline)
next
  assume "send_frame v tx [ea, 0x03, 0x22, (drop_bit 8 did) AND 0xFF, did AND 0xFF, 0, 0, 0]
         = (Inr (), v1)
      \<and> recv_until v1 rx 1 = Some (None, v2)"
  then show "uds_read_by_identifier v tx rx ea did = Some (Inl NoValidResponse, v2)"
    by (elim conjE) (rule identifier_no_response)
next
  assume "recv_until v rx 1 = Some (None, v2)"
  then show "cf_loop rx payload v = Some (Inr payload, v2)"
    by (rule cf_loop_timeout)
next
  assume all: "list_all (\<lambda>x. \<not> response p did_h did_l x) (rxq w)"
  show "map_option fst (uds_wait p did_h did_l t0 w) \<in> {None, Some (Inl TimeoutError)}"
  proof (cases "uds_wait p did_h did_l t0 w")
    case None
    then show ?thesis by simp
  next
    case (Some a)
    then obtain r w' where "uds_wait p did_h did_l t0 w = Some (r, w')" by (cases a) auto
    with uds_wait_no_response [OF this all] show ?thesis by simp
  qed
next
  assume all: "list_all (\<lambda>x. \<not> from_id rx x) (rxq v)"
  show "map_option fst (uds_read_by_identifier v tx rx ea did)
          \<in> {None, Some (Inl NoValidResponse), Some (Inl BytesRangeError),
              Some (Inl CanSendError)}"
  proof (cases "uds_read_by_identifier v tx rx ea did")
    case None
    then show ?thesis by simp
  next
    case (Some a)
    then obtain r v' where "uds_read_by_identifier v tx rx ea did = Some (r, v')"
      by (cases a) auto
    with identifier_no_frame [OF this all] show ?thesis by auto
  qed
qed

lemma late_facts:
  "monotonic \<lparr>clock = [2, 3, 4], rxq = [], wres = [], trace = evs\<rparr>
     = Some (2, \<lparr>clock = [3, 4], rxq = [], wres = [], trace = evs\<rparr>)"
  "send_frame \<lparr>clock = [2, 3, 4], rxq = [], wres = [], trace = []\<rparr> 0x6F1
     [0x43, 0x03, 0x22, 0xD6, 0x31, 0, 0, 0]
     = (Inr (), \<lparr>clock = [2, 3, 4], rxq = [], wres = [],
                 trace = [Sent 0x6F1 [0x43, 0x03, 0x22, 0xD6, 0x31, 0, 0, 0]]\<rparr>)"
  "recv_until \<lparr>clock = [2, 3, 4], rxq = [], wres = [], trace = evs\<rparr> 0x643 1
     = Some (None, \<lparr>clock = [4], rxq = [], wres = [], trace = evs\<rparr>)"
  by (simp_all add: monotonic_def send_frame_def transmit_def recv_until_def
        recv_loop.simps [of _ _ "\<lparr>clock = c, rxq = [], wres = y, trace = z\<rparr>" for c y z])

lemma no_response_facts:
  "list_all (\<lambda>x. \<not> response profile_links 0xD6 0x31 x)
     (rxq (w_poll [0xF1, 0x01, 0x62, 0xD6, 0x32, 0x77, 0x00, 0x00]))"
  "list_all (\<lambda>x. \<not> from_id 0x643 x) (rxq w_other_id)"
  by code_simp+

theorem uds_timeout_amended_witness:
  "uds_wait profile_links 0xD6 0x31 0 \<lparr>clock = [2, 3, 4], rxq = [], wres = [], trace = []\<rparr>
     = Some (Inl TimeoutError, \<lparr>clock = [3, 4], rxq = [], wres = [], trace = []\<rparr>)
   \<and> uds_collect profile_links [1, 2] 0 \<lparr>clock = [2, 3, 4], rxq = [], wres = [], trace = []\<rparr>
     = Some (Inr [1, 2], \<lparr>clock = [3, 4], rxq = [], wres = [], trace = []\<rparr>)
   \<and> recv_loop 0x643 1 \<lparr>clock = [2, 3, 4], rxq = [], wres = [], trace = []\<rparr>
     = Some (None, \<lparr>clock = [3, 4], rxq = [], wres = [], trace = []\<rparr>)
   \<and> uds_read_by_identifier \<lparr>clock = [2, 3, 4], rxq = [], wres = [], trace = []\<rparr>
        0x6F1 0x643 0x43 0xD631
     = Some (Inl NoValidResponse,
             \<lparr>clock = [4], rxq = [], wres = [],
              trace = [Sent 0x6F1 [0x43, 0x03, 0x22, 0xD6, 0x31, 0, 0, 0]]\<rparr>)
   \<and> cf_loop 0x643 [1, 2] \<lparr>clock = [2, 3, 4], rxq = [], wres = [], trace = []\<rparr>
     = Some (Inr [1, 2], \<lparr>clock = [4], rxq = [], wres = [], trace = []\<rparr>)
   \<and> list_all (\<lambda>x. \<not> response profile_links 0xD6 0x31 x)
        (rxq (w_poll [0xF1, 0x01, 0x62, 0xD6, 0x32, 0x77, 0x00, 0x00]))
   \<and> map_option fst (uds_wait profile_links 0xD6 0x31 0
                        (w_poll [0xF1, 0x01, 0x62, 0xD6, 0x32, 0x77, 0x00, 0x00]))
       \<in> {None, Some (Inl TimeoutError)}
   \<and> list_all (\<lambda>x. \<not> from_id 0x643 x) (rxq w_other_id)
   \<and> map_option fst (uds_read_by_identifier w_other_id 0x6F1 0x643 0x43 0xD631)
       \<in> {None, Some (Inl NoValidResponse), Some (Inl BytesRangeError),
           Some (Inl CanSendError)}"
proof -
  let ?w = "\<lparr>clock = [2, 3, 4], rxq = [], wres = [], trace = []\<rparr> :: world"
  let ?w1 = "\<lparr>clock = [3, 4], rxq = [], wres = [], trace = []\<rparr> :: world"
  let ?v1 = "\<lparr>clock = [2, 3, 4], rxq = [], wres = [],
              trace = [Sent 0x6F1 [0x43, 0x03, 0x22, 0xD6, 0x31, 0, 0, 0]]\<rparr> :: world"
  let ?v2 = "\<lparr>clock = [4], rxq = [], wres = [],
              trace = [Sent 0x6F1 [0x43, 0x03, 0x22, 0xD6, 0x31, 0, 0, 0]]\<rparr> :: world"
  let ?u2 = "\<lparr>clock = [4], rxq = [], wres = [], trace = []\<rparr> :: world"
  have did: "(drop_bit 8 (0xD631 :: int)) AND 0xFF = 0xD6" "(0xD631 :: int) AND 0xFF = 0x31"
    by simp_all
  have t: "timeout profile_links = 1" by (simp add: profile_links_def)
  note a = uds_timeout_amended [where w = ?w and now = 2 and ?w1.0 = ?w1 and ?t0.0 = 0
      and p = profile_links and did_h = "0xD6" and did_l = "0x31" and tf = 0
      and payload = "[1, 2]" and end_t = 1 and rx = "0x643"
      and v = ?w and tx = "0x6F1" and ea = "0x43" and did = "0xD631"
      and ?v1.0 = ?v1 and ?v2.0 = ?v2]
  note b = uds_timeout_amended [where v = ?w and rx = "0x643" and ?v2.0 = ?u2
      and payload = "[1, 2]"]
  let ?dm = "[0xF1, 0x01, 0x62, 0xD6, 0x32, 0x77, 0x00, 0x00] :: int list"
  note c = uds_timeout_amended [where w = "w_poll ?dm" and ?t0.0 = 0 and p = profile_links
      and did_h = "0xD6" and did_l = "0x31",
      THEN conjunct2, THEN conjunct2, THEN conjunct2, THEN conjunct2, THEN conjunct2,
      THEN conjunct1, THEN mp, OF no_response_facts(1)]
  note d = uds_timeout_amended [where v = w_other_id and tx = "0x6F1" and rx = "0x643"
      and ea = "0x43" and did = "0xD631",
      THEN conjunct2, THEN conjunct2, THEN conjunct2, THEN conjunct2, THEN conjunct2,
      THEN conjunct2, THEN mp, OF no_response_facts(2)]
  have first5: "uds_wait profile_links 0xD6 0x31 0 \<lparr>clock = [2, 3, 4], rxq = [], wres = [], trace = []\<rparr>
     = Some (Inl TimeoutError, \<lparr>clock = [3, 4], rxq = [], wres = [], trace = []\<rparr>)
   \<and> uds_collect profile_links [1, 2] 0 \<lparr>clock = [2, 3, 4], rxq = [], wres = [], trace = []\<rparr>
     = Some (Inr [1, 2], \<lparr>clock = [3, 4], rxq = [], wres = [], trace = []\<rparr>)
   \<and> recv_loop 0x643 1 \<lparr>clock = [2, 3, 4], rxq = [], wres = [], trace = []\<rparr>
     = Some (None, \<lparr>clock = [3, 4], rxq = [], wres = [], trace = []\<rparr>)
   \<and> uds_read_by_identifier \<lparr>clock = [2, 3, 4], rxq = [], wres = [], trace = []\<rparr>
        0x6F1 0x643 0x43 0xD631
     = Some (Inl NoValidResponse,
             \<lparr>clock = [4], rxq = [], wres = [],
              trace = [Sent 0x6F1 [0x43, 0x03, 0x22, 0xD6, 0x31, 0, 0, 0]]\<rparr>)
   \<and> cf_loop 0x643 [1, 2] \<lparr>clock = [2, 3, 4], rxq = [], wres = [], trace = []\<rparr>
     = Some (Inr [1, 2], \<lparr>clock = [4], rxq = [], wres = [], trace = []\<rparr>)"
    using a b late_facts(1) [of "[]"] late_facts(2) late_facts(3) [of "[]"]
      late_facts(3) [of "[Sent 0x6F1 [0x43, 0x03, 0x22, 0xD6, 0x31, 0, 0, 0]]"] did t
    by simp
  from first5 c d no_response_facts show ?thesis by (intro conjI) (elim conjE, assumption)+
qed

text \<open>
  The claim as stated fails in its second half: after a first frame and then
  silence, both engines return the two payload bytes of the first frame.
\<close>

theorem uds_timeout_counterexample:
  "map_option fst (uds_read_by_id (w_multi 0) 0xD631 profile_links) = Some (Inr [1, 2])
   \<and> map_option fst (uds_read_by_identifier (w_multi 0) 0x6F1 0x643 0x43 0xD631)
       = Some (Inr [1, 2])"
  by code_simp

section \<open>Trigger finder: the raw-bit detector\<close>

text \<open>
  \<open>CanBit\<close>: the detector watches one byte of the frames with one arbitration
  id. \<open>byte\<close> is a Python index, so a negative one counts from the end of the
  data and one below \<open>-len(data)\<close> raises \<open>IndexError\<close>.
\<close>

record can_bit =
  cid :: int
  byte :: int
  mask_bits :: int
  val :: int
  last_masked :: int



definition py_index :: "'a list \<Rightarrow> int \<Rightarrow> 'a option" where
  "py_index xs i =
     (if 0 \<le> i \<and> i < int (length xs) then Some (xs ! nat i)
      else if i < 0 \<and> - int (length xs) \<le> i then Some (xs ! nat (int (length xs) + i))
      else None)"




section \<open>Trigger finder: correlation of an event with the ring buffer\<close>













subsection \<open>The counters after an event\<close>

















subsection \<open>The raw-bit detector\<close>

text \<open>A frame that the detector looks at and whose masked byte is not zero.\<close>

definition observed_nonzero :: "can_bit \<Rightarrow> event \<Rightarrow> bool" where
  "observed_nonzero det e =
     (case e of
        Sent a d \<Rightarrow> False
      | Rcvd a d \<Rightarrow>
          a = cid det \<and> byte det < int (length d)
          \<and> (case py_index d (byte det) of None \<Rightarrow> False | Some b \<Rightarrow> b AND mask_bits det \<noteq> 0))"

lemma observed_nonzero_last [simp]:
  "observed_nonzero (det\<lparr>last_masked := m\<rparr>) = observed_nonzero det"
  by (rule ext) (simp add: observed_nonzero_def split: event.splits option.splits)











end
